theory Spec2Isabelle
  imports Complex_Main "HOL-Library.Multiset" "HOL-Library.AList"
begin

section \<open>Data model\<close>

text \<open>
  A Python character is modelled by its code point, a Python \<open>str\<close> by the list of its
  code points.  A \<open>dict\<close> is an association list in insertion order: \<open>map_of\<close> is
  \<open>d.get(k)\<close>, \<open>AList.update\<close> is \<open>d[k] = v\<close> (in place for a present key,
  appended for a new one).  Python floats are read as real numbers (exact arithmetic).
\<close>

type_synonym sym = nat
type_synonym pystr = "sym list"
type_synonym key = "(sym \<times> sym) list"

text \<open>
  The Python exceptions the modelled code could raise.  \<open>NoneValue\<close> is not an exception:
  it marks a dict returned by \<open>permute_fix\<close> that would still hold a \<open>None\<close> image.
\<close>

datatype error = KeyError | IndexError | ValueError | ZeroDivisionError | OverflowError | NoneValue

definition bindE :: "error + 'a \<Rightarrow> ('a \<Rightarrow> error + 'b) \<Rightarrow> error + 'b" where
  "bindE r f = (case r of Inl e \<Rightarrow> Inl e | Inr v \<Rightarrow> f v)"

text \<open>A \<open>for x in xs\<close> loop whose body may raise: the first error ends the loop.\<close>

fun for_loop :: "('a \<Rightarrow> 's \<Rightarrow> error + 's) \<Rightarrow> 'a list \<Rightarrow> 's \<Rightarrow> error + 's" where
  "for_loop body [] s = Inr s"
| "for_loop body (x # xs) s = bindE (body x s) (for_loop body xs)"

definition str :: "string \<Rightarrow> pystr" where
  "str s = map of_char s"

text \<open>\<open>ALPH\<close>: the 27 letters; code point 241 is the letter n with tilde.\<close>

definition ALPH :: "sym list" where
  "ALPH = str ''abcdefghijklmn'' @ [241] @ str ''opqrstuvwxyz''"

definition VOWELS :: "sym set" where
  "VOWELS = set (str ''aeiou'')"

definition SPANISH_FREQ_ORDER :: "sym list" where
  "SPANISH_FREQ_ORDER = str ''eaosrnidltucmpbgyvfqhxzj'' @ [241] @ str ''kw''"

definition only_letters :: "pystr \<Rightarrow> pystr" where
  "only_letters text = filter (\<lambda>c. c \<in> set ALPH) text"

section \<open>Seeder\<close>

text \<open>
  \<open>Counter(s).most_common()\<close>: the distinct elements in order of first occurrence,
  sorted stably by descending count.
\<close>

fun first_seen :: "'a list \<Rightarrow> 'a list" where
  "first_seen [] = []"
| "first_seen (x # xs) = x # filter (\<lambda>y. y \<noteq> x) (first_seen xs)"

definition most_common :: "pystr \<Rightarrow> sym list" where
  "most_common s = sort_key (\<lambda>c. - int (count_list s c)) (first_seen s)"

text \<open>A dict comprehension: later items overwrite earlier ones with the same key.\<close>

definition dict_of :: "(sym \<times> 'v) list \<Rightarrow> (sym \<times> 'v) list" where
  "dict_of items = fold (\<lambda>(k, v) d. AList.update k v d) items []"

definition permute_fix_assign ::
  "key \<Rightarrow> sym \<Rightarrow> sym set \<times> (sym \<times> sym option) list \<Rightarrow> sym set \<times> (sym \<times> sym option) list" where
  "permute_fix_assign mapping c = (\<lambda>(used, result).
     (case map_of mapping c of
        Some p \<Rightarrow>
          if p \<in> set ALPH \<and> p \<notin> used
          then (insert p used, AList.update c (Some p) result)
          else (used, AList.update c None result)
      | None \<Rightarrow> (used, AList.update c None result)))"

definition permute_fix_fill ::
  "sym \<Rightarrow> (sym \<times> sym option) list \<times> sym list \<Rightarrow> error + (sym \<times> sym option) list \<times> sym list" where
  "permute_fix_fill c = (\<lambda>(result, leftovers).
     (case map_of result c of
        None \<Rightarrow> Inl KeyError
      | Some None \<Rightarrow>
          (case leftovers of
             [] \<Rightarrow> Inl IndexError
           | x # rest \<Rightarrow> Inr (AList.update c (Some x) result, rest))
      | Some (Some p) \<Rightarrow> Inr (result, leftovers)))"

text \<open>The returned dict read as a key: every image must be a letter, none \<open>None\<close>.\<close>

definition no_None :: "(sym \<times> sym option) list \<Rightarrow> error + key" where
  "no_None result =
     (if \<forall>(c, v) \<in> set result. v \<noteq> None
      then Inr (map (\<lambda>(c, v). (c, the v)) result)
      else Inl NoneValue)"

definition permute_fix :: "key \<Rightarrow> error + key" where
  "permute_fix mapping =
     (let (used, result) = fold (permute_fix_assign mapping) ALPH ({}, []);
          leftovers = filter (\<lambda>x. x \<notin> used) ALPH
      in bindE (for_loop permute_fix_fill ALPH (result, leftovers))
           (\<lambda>(result, leftovers). no_None result))"

definition initial_key_from_freq :: "pystr \<Rightarrow> bool \<Rightarrow> error + key" where
  "initial_key_from_freq ciphertext_letters force_e =
     (let cipher_order =
            fold (\<lambda>c order. if c \<notin> set order then order @ [c] else order)
              ALPH (most_common ciphertext_letters);
          plain_order =
            (if force_e \<and> cipher_order \<noteq> []
             then (let removed =
                         (if of_char CHR ''e'' \<in> set SPANISH_FREQ_ORDER
                          then remove1 (of_char CHR ''e'') SPANISH_FREQ_ORDER
                          else SPANISH_FREQ_ORDER)
                   in of_char CHR ''e'' # filter (\<lambda>x. x \<noteq> of_char CHR ''e'') removed)
             else SPANISH_FREQ_ORDER)
      in if plain_order = [] \<and> cipher_order \<noteq> [] then Inl ZeroDivisionError
         else permute_fix
                (dict_of (map (\<lambda>(i, ciph). (ciph, plain_order ! (i mod length plain_order)))
                            (enumerate 0 cipher_order))))"

section \<open>Key model\<close>

definition apply_mapping :: "pystr \<Rightarrow> key \<Rightarrow> error + pystr" where
  "apply_mapping text mapping =
     for_loop (\<lambda>ch res.
        if ch \<in> set ALPH
        then (case map_of mapping ch of
                None \<Rightarrow> Inl KeyError
              | Some p \<Rightarrow> Inr (res @ [p]))
        else Inr (res @ [ch])) text []"

text \<open>The loop of \<open>random_swap_key\<close> over the entries, for the two drawn images.\<close>

definition swap_images :: "sym \<Rightarrow> sym \<Rightarrow> key \<Rightarrow> key" where
  "swap_images a b m = map (\<lambda>(k, v). (k, if v = a then b else if v = b then a else v)) m"

text \<open>
  The generator of module \<open>random\<close> is an explicit state: the stream of its raw draws.
  \<open>random.sample(pop, 2)\<close> raises \<open>ValueError\<close> on fewer than two elements and otherwise
  returns the elements at two distinct positions; both positions are fixed by the draws,
  never by the contents of \<open>pop\<close>.  \<open>random.random()\<close> returns a 53-bit fraction in
  \<open>[0, 1)\<close>.
\<close>

type_synonym rng = "nat \<Rightarrow> nat"

definition draw :: "rng \<Rightarrow> nat \<times> rng" where
  "draw g = (g 0, \<lambda>i. g (Suc i))"

definition random_sample2 :: "rng \<Rightarrow> 'a list \<Rightarrow> error + ('a \<times> 'a) \<times> rng" where
  "random_sample2 g pop =
     (let n = length pop in
      if n < 2 then Inl ValueError
      else (let (x, g1) = draw g; (y, g2) = draw g1;
                i = x mod n; j = (i + 1 + y mod (n - 1)) mod n
            in Inr ((pop ! i, pop ! j), g2)))"

definition random_random :: "rng \<Rightarrow> real \<times> rng" where
  "random_random g = (let (x, g1) = draw g in (real (x mod 2 ^ 53) / 2 ^ 53, g1))"

text \<open>
  \<open>list(set(xs))\<close> lists the distinct elements of \<open>xs\<close> in the iteration order of the
  set, which for strings depends on the hash seed of the interpreter process.  The order
  is a parameter \<open>ord\<close> of the model; \<open>set_order_ok\<close> is all that Python promises.
\<close>

definition set_order_ok :: "(sym list \<Rightarrow> sym list) \<Rightarrow> bool" where
  "set_order_ok ord \<longleftrightarrow> (\<forall>xs. distinct (ord xs) \<and> set (ord xs) = set xs)"

definition random_swap_key :: "(sym list \<Rightarrow> sym list) \<Rightarrow> rng \<Rightarrow> key \<Rightarrow> error + key \<times> rng" where
  "random_swap_key ord g mapping =
     (let m = mapping;
          vals = ord (map snd m)
      in bindE (random_sample2 g vals) (\<lambda>((a, b), g'). Inr (swap_images a b m, g')))"

definition shake_key :: "(sym list \<Rightarrow> sym list) \<Rightarrow> rng \<Rightarrow> key \<Rightarrow> int \<Rightarrow> error + key \<times> rng" where
  "shake_key ord g key shakes =
     for_loop (\<lambda>_ (m, g'). random_swap_key ord g' m) [0..<nat shakes] (key, g)"

text \<open>A key is a bijection on the alphabet.\<close>

definition is_bijection :: "key \<Rightarrow> bool" where
  "is_bijection k \<longleftrightarrow>
     distinct (map fst k) \<and> set (map fst k) = set ALPH \<and> mset (map snd k) = mset ALPH"

section \<open>Auxiliary functions for the repair proof\<close>

fun images :: "(sym \<times> sym option) list \<Rightarrow> sym list" where
  "images [] = []"
| "images ((c, None) # r) = images r"
| "images ((c, Some p) # r) = p # images r"

fun fill :: "(sym \<times> sym option) list \<Rightarrow> sym list \<Rightarrow> (sym \<times> sym option) list" where
  "fill [] lo = []"
| "fill ((c, Some p) # r) lo = (c, Some p) # fill r lo"
| "fill ((c, None) # r) (x # lo) = (c, Some x) # fill r lo"
| "fill ((c, None) # r) [] = (c, None) # fill r []"

fun nones :: "(sym \<times> sym option) list \<Rightarrow> nat" where
  "nones [] = 0"
| "nones ((c, None) # r) = Suc (nones r)"
| "nones ((c, Some p) # r) = nones r"

section \<open>Scoring engine\<close>

text \<open>
  The tables are the dict literals of the source, item by item; code points 225, 237 and
  233 are the accented a, i and e of three lexicon words.  In a dict literal a repeated
  key keeps its last value, so \<open>dict_get\<close> (\<open>d.get(k, default)\<close>) reads the items from
  the back.
\<close>

definition BIGRAM_SCORES :: "(pystr \<times> real) list" where
  "BIGRAM_SCORES =
    [(str ''de'', 4.5), (str ''en'', 4.3), (str ''es'', 4.0), (str ''la'', 4.0),
     (str ''el'', 3.8), (str ''que'', 3.5), (str ''qu'', 3.2),
     (str ''re'', 3.0), (str ''ra'', 2.9), (str ''os'', 2.8), (str ''ar'', 2.8),
     (str ''co'', 2.7), (str ''te'', 2.7), (str ''an'', 2.6),
     (str ''as'', 2.6), (str ''er'', 2.5), (str ''se'', 2.5), (str ''or'', 2.4),
     (str ''al'', 2.4), (str ''ci'', 2.3), (str ''to'', 2.2),
     (str ''nt'', 2.2), (str ''lo'', 2.1), (str ''no'', 2.1), (str ''pa'', 2.0),
     (str ''po'', 1.9), (str ''ma'', 1.8), (str ''is'', 1.8),
     (str ''ta'', 1.8), (str ''in'', 1.7), (str ''na'', 1.7), (str ''ro'', 1.7),
     (str ''mi'', 1.6), (str ''li'', 1.5), (str ''do'', 1.5),
     (str ''ue'', 1.5), (str ''me'', 1.4), (str ''pe'', 1.4), (str ''bi'', 1.3),
     (str ''ga'', 1.2), (str ''ya'', 1.1), (str ''ve'', 1.1),
     (str ''ho'', 1.0), (str ''va'', 1.0), (str ''mo'', 1.0)]"

definition TRIGRAM_SCORES :: "(pystr \<times> real) list" where
  "TRIGRAM_SCORES =
    [(str ''que'', 7.0), (str ''ent'', 5.5), (str ''con'', 5.0), (str ''los'', 4.8),
     (str ''las'', 4.6), (str ''del'', 4.6),
     (str ''una'', 4.5), (str ''por'', 4.4), (str ''est'', 4.2), (str ''ela'', 3.8),
     (str ''ela'', 3.8), (str ''aci'', 3.5),
     (str ''ara'', 3.5), (str ''res'', 3.4), (str ''dos'', 3.3), (str ''par'', 3.2),
     (str ''pro'', 3.2), (str ''men'', 3.1),
     (str ''ion'', 3.0), (str ''ara'', 3.0), (str ''era'', 2.9), (str ''tra'', 2.9),
     (str ''que'', 7.0)]"

definition COMMON_WORDS :: "pystr list" where
  "COMMON_WORDS =
    [str ''de'', str ''la'', str ''que'', str ''el'', str ''en'', str ''y'', str ''a'',
     str ''los'', str ''se'', str ''del'', str ''las'', str ''un'', str ''por'', str ''con'',
     str ''no'', str ''una'', str ''su'', str ''para'', str ''es'', str ''al'', str ''lo'',
     str ''como'', str ''m'' @ [225] @ str ''s'', str ''pero'', str ''sus'', str ''le'',
     str ''ya'',
     str ''o'', str ''este'', str ''s'' @ [237], str ''porque'', str ''cuando'', str ''muy'',
     str ''sin'', str ''sobre'', str ''tambi'' @ [233] @ str ''n'', str ''me'', str ''hasta'']"

definition dict_get :: "('k \<times> 'v) list \<Rightarrow> 'k \<Rightarrow> 'v \<Rightarrow> 'v" where
  "dict_get items k d = (case map_of (rev items) k of None \<Rightarrow> d | Some v \<Rightarrow> v)"

text \<open>
  \<open>plain.split()\<close> cuts at runs of whitespace; \<open>is_space\<close> lists the code points for
  which \<open>str.isspace\<close> holds.
\<close>

definition is_space :: "sym \<Rightarrow> bool" where
  "is_space c \<longleftrightarrow>
     c \<in> set [9, 10, 11, 12, 13, 28, 29, 30, 31, 32, 133, 160, 5760,
              8232, 8233, 8239, 8287, 12288]
     \<or> (8192 \<le> c \<and> c \<le> 8202)"

fun split_from :: "pystr \<Rightarrow> pystr \<Rightarrow> pystr list" where
  "split_from word [] = (if word = [] then [] else [word])"
| "split_from word (c # cs) =
     (if is_space c
      then (if word = [] then split_from [] cs else word # split_from [] cs)
      else split_from (word @ [c]) cs)"

definition py_split :: "pystr \<Rightarrow> pystr list" where
  "py_split text = split_from [] text"

definition py_div :: "real \<Rightarrow> real \<Rightarrow> error + real" where
  "py_div x y = (if y = 0 then Inl ZeroDivisionError else Inr (x / y))"

definition score_text :: "pystr \<Rightarrow> error + real" where
  "score_text plain =
     (let s = 0;
          letters = only_letters plain;
          n = length letters
      in if n = 0 then Inr (- 1000000000)
         else
          (let s = fold (\<lambda>i s. s + dict_get BIGRAM_SCORES (take 2 (drop i letters)) (- 0.8))
                     [0..<n - 1] s;
               s = fold (\<lambda>i s. s + dict_get TRIGRAM_SCORES (take 3 (drop i letters)) (- 0.5))
                     [0..<n - 2] s;
               words = py_split plain;
               s = fold (\<lambda>w s. let c = count_list words w
                                 in if c \<noteq> 0 then s + 6.0 * real c else s)
                     COMMON_WORDS s;
               vowels = length (filter (\<lambda>ch. ch \<in> VOWELS) letters)
           in bindE (py_div (real vowels) (real (max 1 n)))
                (\<lambda>ratio. Inr (s - 50.0 * (ratio - 0.45) ^ 2))))"

section \<open>Search engine\<close>

text \<open>
  The variables of \<open>decipher\<close> form the state of its loops.  \<open>history\<close> is a history
  variable that the source does not have and the algorithm never reads: one event for
  every call of \<open>score_text\<close>, with the candidate's origin, its score and the value of
  \<open>best_score\<close> after the event.
\<close>

datatype origin = Seed | Start | Accepted | Rejected

type_synonym event = "origin \<times> real \<times> real"

record search =
  current_key :: key
  current_plain :: pystr
  current_score :: real
  best_key :: key
  best_plain :: pystr
  best_score :: real
  gen :: rng
  history :: "event list"

definition T0 :: real where
  "T0 = 2.0"

definition Tmin :: real where
  "Tmin = 0.01"

definition temperature :: "int \<Rightarrow> int \<Rightarrow> error + real" where
  "temperature iters t =
     bindE (py_div (real_of_int t) (real_of_int iters)) (\<lambda>q. Inr (max Tmin (T0 * (1 - q))))"

text \<open>\<open>math.exp\<close> raises \<open>OverflowError\<close> above about 709.78; the model raises from 709 on.\<close>

definition math_exp :: "real \<Rightarrow> error + real" where
  "math_exp x = (if 709 < x then Inl OverflowError else Inr (exp x))"

definition accept_move :: "key \<Rightarrow> pystr \<Rightarrow> real \<Rightarrow> rng \<Rightarrow> search \<Rightarrow> search" where
  "accept_move new_key new_plain new_score g st =
     (let st1 = st\<lparr>current_key := new_key, current_plain := new_plain,
                    current_score := new_score, gen := g\<rparr>;
          st2 = (if current_score st1 > best_score st1
                 then st1\<lparr>best_key := current_key st1, best_plain := current_plain st1,
                          best_score := current_score st1\<rparr>
                 else st1)
      in st2\<lparr>history := history st2 @ [(Accepted, new_score, best_score st2)]\<rparr>)"

definition anneal_step ::
  "(sym list \<Rightarrow> sym list) \<Rightarrow> pystr \<Rightarrow> int \<Rightarrow> int \<Rightarrow> search \<Rightarrow> error + search" where
  "anneal_step ord cipher_norm iters t st =
     bindE (temperature iters t) (\<lambda>T.
     bindE (random_swap_key ord (gen st) (current_key st)) (\<lambda>(new_key, g1).
     bindE (apply_mapping cipher_norm new_key) (\<lambda>new_plain.
     bindE (score_text new_plain) (\<lambda>new_score.
       let delta = new_score - current_score st
       in if delta \<ge> 0 then Inr (accept_move new_key new_plain new_score g1 st)
          else (let (u, g2) = random_random g1
                in bindE (py_div delta (max T 0.000001)) (\<lambda>x.
                   bindE (math_exp x) (\<lambda>p.
                     if u < p then Inr (accept_move new_key new_plain new_score g2 st)
                     else Inr (st\<lparr>gen := g2,
                                  history := history st
                                    @ [(Rejected, new_score, best_score st)]\<rparr>))))))))"

definition restart_step ::
  "(sym list \<Rightarrow> sym list) \<Rightarrow> pystr \<Rightarrow> int \<Rightarrow> key \<Rightarrow> int \<Rightarrow> search \<Rightarrow> error + search" where
  "restart_step ord cipher_norm iters base_key r st =
     bindE (if r = 0 then Inr (base_key, gen st) else shake_key ord (gen st) base_key 50)
       (\<lambda>(start_key, g1).
     bindE (apply_mapping cipher_norm start_key) (\<lambda>start_plain.
     bindE (score_text start_plain) (\<lambda>start_score.
       for_loop (anneal_step ord cipher_norm iters) [1..iters]
         (st\<lparr>current_key := start_key, current_plain := start_plain,
              current_score := start_score, gen := g1,
              history := history st @ [(Start, start_score, best_score st)]\<rparr>))))"

text \<open>
  \<open>mt_seed\<close> is the state \<open>random.seed(seed)\<close> installs, \<open>g\<close> the state of the generator
  when \<open>decipher\<close> is called.  Before the first restart the \<open>current\<close> variables are
  unbound in the source; the model holds the seed's values there, which no step reads.
\<close>

definition decipher_run ::
  "(sym list \<Rightarrow> sym list) \<Rightarrow> (int \<Rightarrow> rng) \<Rightarrow> rng \<Rightarrow> pystr \<Rightarrow> int \<Rightarrow> int \<Rightarrow> int option \<Rightarrow> bool
     \<Rightarrow> error + search" where
  "decipher_run ord mt_seed g cipher_norm restarts iters seed force_e =
     (let g0 = (case seed of None \<Rightarrow> g | Some s \<Rightarrow> mt_seed s);
          letters_only = only_letters cipher_norm
      in bindE (initial_key_from_freq letters_only force_e) (\<lambda>base_key.
         bindE (apply_mapping cipher_norm base_key) (\<lambda>plain0.
         bindE (score_text plain0) (\<lambda>score0.
           for_loop (restart_step ord cipher_norm iters base_key) [0..restarts - 1]
             \<lparr>current_key = base_key, current_plain = plain0, current_score = score0,
              best_key = base_key, best_plain = plain0, best_score = score0,
              gen = g0, history = [(Seed, score0, score0)]\<rparr>))))"

definition decipher ::
  "(sym list \<Rightarrow> sym list) \<Rightarrow> (int \<Rightarrow> rng) \<Rightarrow> rng \<Rightarrow> pystr \<Rightarrow> int \<Rightarrow> int \<Rightarrow> int option \<Rightarrow> bool
     \<Rightarrow> error + pystr \<times> key \<times> real" where
  "decipher ord mt_seed g cipher_norm restarts iters seed force_e =
     bindE (decipher_run ord mt_seed g cipher_norm restarts iters seed force_e)
       (\<lambda>st. Inr (best_plain st, best_key st, best_score st))"

section \<open>The score as the specification states it\<close>

text \<open>
  The sum over the overlapping letter pairs, the sum over the overlapping letter triples,
  6.0 for every occurrence of a lexicon word among the tokens, minus the vowel-ratio
  penalty.  This definition follows the words of the specification, not the source.
\<close>

definition score_formula :: "pystr \<Rightarrow> real" where
  "score_formula plain =
     (let l = only_letters plain; n = length l
      in (\<Sum>i<n - 1. dict_get BIGRAM_SCORES [l ! i, l ! (i + 1)] (- 0.8))
       + (\<Sum>i<n - 2. dict_get TRIGRAM_SCORES [l ! i, l ! (i + 1), l ! (i + 2)] (- 0.5))
       + (\<Sum>w\<leftarrow>COMMON_WORDS. 6.0 * real (count_list (py_split plain) w))
       - 50.0 * (real (length (filter (\<lambda>ch. ch \<in> VOWELS) l)) / real n - 0.45) ^ 2)"

section \<open>Concrete inputs\<close>

text \<open>A generator state given by its first draws (all later draws are 0), and a key.\<close>

definition tape :: "nat list \<Rightarrow> rng" where
  "tape xs = (\<lambda>i. if i < length xs then xs ! i else 0)"

definition atbash_key :: key where
  "atbash_key = zip ALPH (rev ALPH)"

text \<open>Two listings of a set, and two ways \<open>random.seed\<close> could set the generator.\<close>

definition reversed_order :: "sym list \<Rightarrow> sym list" where
  "reversed_order xs = rev (remdups xs)"

definition zero_seed :: "int \<Rightarrow> rng" where
  "zero_seed s = tape []"

definition fixed_seed :: "int \<Rightarrow> rng" where
  "fixed_seed s = tape [24, 7]"

text \<open>The seed key of the ciphertext \<open>xy\<close>, and the same key after two image swaps.\<close>

definition seed_xy :: key where
  "seed_xy =
    [(97, 111), (98, 115), (99, 114), (100, 110), (101, 105), (102, 100),
     (103, 108), (104, 116), (105, 117), (106, 99), (107, 109), (108, 112),
     (109, 98), (110, 103), (241, 121), (111, 118), (112, 102), (113, 113),
     (114, 104), (115, 120), (116, 122), (117, 106), (118, 241),
     (119, 107), (120, 101), (121, 97), (122, 119)]"

definition shaken_xy :: key where
  "shaken_xy = swap_images 97 101 (swap_images 101 100 seed_xy)"

section \<open>Reading the history, and the invariant of the search\<close>

definition origin_of :: "event \<Rightarrow> origin" where
  "origin_of e = fst e"

definition score_of :: "event \<Rightarrow> real" where
  "score_of e = fst (snd e)"

definition best_after :: "event \<Rightarrow> real" where
  "best_after e = snd (snd e)"

text \<open>The scores of all candidates that were decoded and scored.\<close>

definition scored :: "event list \<Rightarrow> real list" where
  "scored h = map score_of h"

text \<open>The scores of the seed and of the accepted neighbours only.\<close>

definition counted :: "event list \<Rightarrow> real list" where
  "counted h = map score_of (filter (\<lambda>e. origin_of e = Seed \<or> origin_of e = Accepted) h)"

definition hist_inv :: "real \<Rightarrow> real \<Rightarrow> event list \<Rightarrow> bool" where
  "hist_inv s0 best h \<longleftrightarrow>
     h \<noteq> [] \<and> best_after (last h) = best \<and> sorted (map best_after h) \<and>
     s0 \<in> set (counted h) \<and> best = Max (set (counted h)) \<and>
     (\<forall>e \<in> set h. origin_of e = Seed \<longrightarrow> score_of e = s0)"

definition search_inv :: "pystr \<Rightarrow> pystr \<Rightarrow> key \<Rightarrow> real \<Rightarrow> search \<Rightarrow> bool" where
  "search_inv cipher p0 k0 s0 st \<longleftrightarrow>
     is_bijection (current_key st) \<and> is_bijection (best_key st) \<and>
     apply_mapping cipher (best_key st) = Inr (best_plain st) \<and>
     score_text (best_plain st) = Inr (best_score st) \<and>
     hist_inv s0 (best_score st) (history st) \<and>
     ((best_plain st, best_key st, best_score st) = (p0, k0, s0) \<or> s0 < best_score st)"

section \<open>Listings of the alphabet with two chosen letters at two chosen positions\<close>

text \<open>
  \<open>listing_with a i b j\<close> is a listing order of sets: it lists the set of all letters
  with a at position i and b at position j, and any other set as \<open>remdups\<close> does.
\<close>

definition ins :: "nat \<Rightarrow> 'a \<Rightarrow> 'a list \<Rightarrow> 'a list" where
  "ins k x xs = take k xs @ x # drop k xs"

definition listing_with :: "sym \<Rightarrow> nat \<Rightarrow> sym \<Rightarrow> nat \<Rightarrow> sym list \<Rightarrow> sym list" where
  "listing_with a i b j xs =
     (if set xs = set ALPH
      then (let rest = filter (\<lambda>x. x \<noteq> a \<and> x \<noteq> b) ALPH
            in if i < j then ins j b (ins i a rest) else ins i a (ins j b rest))
      else remdups xs)"

lemma bindE_simps [simp]: "bindE (Inl e) f = Inl e" "bindE (Inr v) f = f v"
  by (simp_all add: bindE_def)

lemma ALPH_codes:
  "ALPH = [97, 98, 99, 100, 101, 102, 103, 104, 105, 106, 107, 108, 109, 110, 241,
           111, 112, 113, 114, 115, 116, 117, 118, 119, 120, 121, 122]"
  by (simp add: ALPH_def str_def)

lemma distinct_ALPH: "distinct ALPH"
  by (simp add: ALPH_codes)

lemma length_ALPH: "length ALPH = 27"
  by (simp add: ALPH_codes)

lemma plain_order_force_e:
  "(let removed = (if of_char CHR ''e'' \<in> set SPANISH_FREQ_ORDER
                   then remove1 (of_char CHR ''e'') SPANISH_FREQ_ORDER
                   else SPANISH_FREQ_ORDER)
    in of_char CHR ''e'' # filter (\<lambda>x. x \<noteq> of_char CHR ''e'') removed) = SPANISH_FREQ_ORDER"
  by (simp add: SPANISH_FREQ_ORDER_def str_def)

lemma force_e_no_effect:
  "initial_key_from_freq s True = initial_key_from_freq s False"
  unfolding initial_key_from_freq_def plain_order_force_e by (simp add: Let_def)

lemma swap_twice: "swap_images a b (swap_images a b k) = k"
  by (induction k) (auto simp: swap_images_def)

lemma update_fresh: "c \<notin> fst ` set al \<Longrightarrow> AList.update c v al = al @ [(c, v)]"
  by (induction al) auto

lemma update_mid:
  "c \<notin> fst ` set front \<Longrightarrow> AList.update c v' (front @ (c, v) # back) = front @ (c, v') # back"
  by (induction front) auto

lemma map_of_mid: "c \<notin> fst ` set front \<Longrightarrow> map_of (front @ (c, v) # back) c = Some v"
  by (induction front) auto

lemma images_append: "images (r @ s) = images r @ images s"
  by (induction r rule: images.induct) auto

lemma length_nones_images: "length r = nones r + length (images r)"
  by (induction r rule: images.induct) auto

lemma assign_step:
  assumes "c \<notin> fst ` set result" "set (images result) = used" "distinct (images result)"
    "used \<subseteq> set ALPH" "permute_fix_assign mapping c (used, result) = (u1, r1)"
  shows "map fst r1 = map fst result @ [c] \<and> set (images r1) = u1 \<and>
         distinct (images r1) \<and> u1 \<subseteq> set ALPH"
proof (cases "map_of mapping c")
  case None
  with assms(5) have "u1 = used" "r1 = result @ [(c, None)]"
    by (simp_all add: permute_fix_assign_def update_fresh[OF assms(1)])
  with assms(2,3,4) show ?thesis by (simp add: images_append)
next
  case (Some p)
  show ?thesis
  proof (cases "p \<in> set ALPH \<and> p \<notin> used")
    case True
    with Some assms(5) have "u1 = insert p used" "r1 = result @ [(c, Some p)]"
      by (simp_all add: permute_fix_assign_def update_fresh[OF assms(1)])
    with True assms(2,3,4) show ?thesis by (simp add: images_append)
  next
    case False
    with Some assms(5) have "u1 = used" "r1 = result @ [(c, None)]"
      by (auto simp add: permute_fix_assign_def update_fresh[OF assms(1)])
    with assms(2,3,4) show ?thesis by (simp add: images_append)
  qed
qed

lemma assign_phase:
  "distinct cs \<Longrightarrow> set cs \<inter> fst ` set result = {} \<Longrightarrow> set (images result) = used \<Longrightarrow>
   distinct (images result) \<Longrightarrow> used \<subseteq> set ALPH \<Longrightarrow>
   fold (permute_fix_assign mapping) cs (used, result) = (used', result') \<Longrightarrow>
   map fst result' = map fst result @ cs \<and> set (images result') = used' \<and>
   distinct (images result') \<and> used' \<subseteq> set ALPH"
proof (induction cs arbitrary: used result)
  case Nil
  then show ?case by simp
next
  case (Cons c cs)
  obtain u1 r1 where step: "permute_fix_assign mapping c (used, result) = (u1, r1)"
    by (cases "permute_fix_assign mapping c (used, result)")
  have fresh: "c \<notin> fst ` set result" using Cons.prems(2) by auto
  note r1 = assign_step[OF fresh Cons.prems(3,4,5) step]
  have "fst ` set r1 = set (map fst r1)" by simp
  also have "\<dots> = insert c (fst ` set result)" using r1 by simp
  finally have disj: "set cs \<inter> fst ` set r1 = {}"
    using Cons.prems(1,2) by auto
  from Cons.prems(6) step have run: "fold (permute_fix_assign mapping) cs (u1, r1) = (used', result')"
    by simp
  have dcs: "distinct cs" using Cons.prems(1) by simp
  from Cons.IH[OF dcs disj _ _ _ run] r1
  show ?case by simp
qed

lemma fill_step_Some:
  "c \<notin> fst ` set front \<Longrightarrow>
   permute_fix_fill c (front @ (c, Some p) # r, lo) = Inr (front @ (c, Some p) # r, lo)"
  using map_of_mid[of c front "Some p" r] by (simp add: permute_fix_fill_def del: map_of_append)

lemma fill_step_None:
  "c \<notin> fst ` set front \<Longrightarrow>
   permute_fix_fill c (front @ (c, None) # r, x # lo) = Inr (front @ (c, Some x) # r, lo)"
  using map_of_mid[of c front None r] update_mid[of c front "Some x" None r]
  by (simp add: permute_fix_fill_def del: map_of_append)

lemma fill_phase:
  "distinct (map fst (front @ todo)) \<Longrightarrow> nones todo \<le> length lo \<Longrightarrow>
   for_loop permute_fix_fill (map fst todo) (front @ todo, lo)
     = Inr (front @ fill todo lo, drop (nones todo) lo)"
proof (induction todo lo arbitrary: front rule: fill.induct)
  case (1 lo)
  then show ?case by simp
next
  case (2 c p r lo)
  have nf: "c \<notin> fst ` set front" using "2.prems"(1) by auto
  have "distinct (map fst ((front @ [(c, Some p)]) @ r))" using "2.prems"(1) by simp
  from "2.IH"[OF this] "2.prems"(2) show ?case
    by (simp add: fill_step_Some[OF nf])
next
  case (3 c r x lo)
  have nf: "c \<notin> fst ` set front" using "3.prems"(1) by auto
  have "distinct (map fst ((front @ [(c, Some x)]) @ r))" using "3.prems"(1) by simp
  from "3.IH"[OF this] "3.prems"(2) show ?case
    by (simp add: fill_step_None[OF nf])
next
  case (4 c r)
  then show ?case by simp
qed

lemma fill_facts:
  "nones todo \<le> length lo \<Longrightarrow>
   map fst (fill todo lo) = map fst todo \<and>
   (\<forall>(c, v) \<in> set (fill todo lo). v \<noteq> None) \<and>
   map snd (map (\<lambda>(c, v). (c, the v)) (fill todo lo)) = images (fill todo lo) \<and>
   mset (images (fill todo lo)) = mset (images todo) + mset (take (nones todo) lo)"
  by (induction todo lo rule: fill.induct) auto

lemma permute_fix_bijection:
  "\<exists>k. permute_fix mapping = Inr k \<and> map fst k = ALPH \<and> is_bijection k"
proof -
  obtain used r1 where f: "fold (permute_fix_assign mapping) ALPH ({}, []) = (used, r1)"
    by (cases "fold (permute_fix_assign mapping) ALPH ({}, [])")
  have a: "map fst r1 = ALPH" "set (images r1) = used" "distinct (images r1)" "used \<subseteq> set ALPH"
    using assign_phase[OF distinct_ALPH _ _ _ _ f] by simp_all
  define A where "A = filter (\<lambda>x. x \<in> used) ALPH"
  define B where "B = filter (\<lambda>x. x \<notin> used) ALPH"
  have "set A = set (images r1)" using a(2,4) by (auto simp: A_def)
  then have mA: "mset (images r1) = mset A"
    using a(3) distinct_ALPH by (metis A_def distinct_filter set_eq_iff_mset_eq_distinct)
  have mAB: "mset A + mset B = mset ALPH"
    unfolding A_def B_def by (induction ALPH) auto
  have "length A + length B = length ALPH"
    unfolding A_def B_def by (rule sum_length_filter_compl)
  moreover have "length (images r1) = length A"
    using mA by (metis size_mset)
  moreover have "length r1 = length ALPH"
    using a(1) by (metis length_map)
  ultimately have nB: "nones r1 = length B"
    using length_nones_images[of r1] by simp
  have d: "distinct (map fst ([] @ r1))" using a(1) distinct_ALPH by simp
  have loop: "for_loop permute_fix_fill ALPH (r1, B) = Inr (fill r1 B, [])"
    using fill_phase[OF d, of B] nB a(1) by simp
  have ff: "map fst (fill r1 B) = ALPH" "\<forall>(c, v) \<in> set (fill r1 B). v \<noteq> None"
    "map snd (map (\<lambda>(c, v). (c, the v)) (fill r1 B)) = images (fill r1 B)"
    "mset (images (fill r1 B)) = mset ALPH"
    using fill_facts[of r1 B] nB a(1) mA mAB by simp_all
  define k where "k = map (\<lambda>(c, v). (c, the v)) (fill r1 B)"
  have "no_None (fill r1 B) = Inr k"
    using ff(2) by (simp add: no_None_def k_def)
  then have pk: "permute_fix mapping = Inr k"
    using f loop by (simp add: permute_fix_def B_def)
  have kf: "map fst k = ALPH"
    using ff(1) by (simp add: k_def case_prod_unfold comp_def)
  have km: "mset (map snd k) = mset ALPH"
    using ff(3,4) by (simp add: k_def)
  have "is_bijection k"
    unfolding is_bijection_def kf using distinct_ALPH km by simp
  with pk kf show ?thesis by simp
qed


lemma initial_key_bijection:
  "\<exists>k. initial_key_from_freq s f = Inr k \<and> map fst k = ALPH \<and> is_bijection k"
proof -
  have "SPANISH_FREQ_ORDER \<noteq> []" by (simp add: SPANISH_FREQ_ORDER_def str_def)
  then show ?thesis
    unfolding initial_key_from_freq_def plain_order_force_e
    by (simp add: Let_def permute_fix_bijection)
qed

lemma swap_images_fst: "map fst (swap_images a b k) = map fst k"
  by (induction k) (auto simp: swap_images_def)

lemma swap_images_snd:
  "map snd (swap_images a b k) = map (\<lambda>v. if v = a then b else if v = b then a else v) (map snd k)"
  by (induction k) (auto simp: swap_images_def)

lemma swap_images_bijection:
  assumes "is_bijection k" "a \<in> set ALPH" "b \<in> set ALPH"
  shows "is_bijection (swap_images a b k)"
proof -
  define f where "f = (\<lambda>v. if v = a then b else if v = b then a else v)"
  have inj: "inj f" by (auto simp: inj_on_def f_def)
  have "f ` set ALPH = set ALPH" using assms(2,3) by (auto simp: image_iff f_def)
  then have "set (map f ALPH) = set ALPH" by simp
  moreover have "distinct (map f ALPH)"
    using distinct_ALPH inj by (simp add: distinct_map inj_on_def)
  ultimately have fA: "mset (map f ALPH) = mset ALPH"
    using distinct_ALPH set_eq_iff_mset_eq_distinct by blast
  have "mset (map snd (swap_images a b k)) = image_mset f (mset (map snd k))"
    by (simp only: swap_images_snd f_def mset_map)
  also have "\<dots> = image_mset f (mset ALPH)"
    using assms(1) by (simp only: is_bijection_def)
  also have "\<dots> = mset (map f ALPH)" by simp
  finally have "mset (map snd (swap_images a b k)) = mset ALPH" using fA by simp
  then show ?thesis
    using assms(1) unfolding is_bijection_def swap_images_fst by simp
qed

lemma shifted_index_neq:
  fixes i :: nat
  assumes "i < n" "d < n - 1"
  shows "(i + 1 + d) mod n \<noteq> i"
proof (cases "i + 1 + d < n")
  case True
  then show ?thesis by simp
next
  case False
  then have "(i + 1 + d) mod n = (i + 1 + d - n) mod n"
    by (simp add: le_mod_geq)
  also have "\<dots> = i + 1 + d - n" using assms by simp
  finally show ?thesis using assms False by simp
qed

lemma bijection_values:
  assumes "is_bijection k" "set_order_ok ord"
  shows "set (ord (map snd k)) = set ALPH" "length (ord (map snd k)) = 27"
proof -
  have "set (map snd k) = set ALPH"
    using assms(1) unfolding is_bijection_def by (metis set_mset_mset)
  then show s: "set (ord (map snd k)) = set ALPH"
    using assms(2) by (simp add: set_order_ok_def)
  have "distinct (ord (map snd k))" using assms(2) by (simp add: set_order_ok_def)
  then have "length (ord (map snd k)) = card (set ALPH)"
    using s distinct_card by metis
  then show "length (ord (map snd k)) = 27"
    using distinct_card[OF distinct_ALPH] length_ALPH by simp
qed

lemma random_sample2_result:
  assumes "2 \<le> length pop"
  shows "\<exists>a b g'. random_sample2 g pop = Inr ((a, b), g') \<and> a \<in> set pop \<and> b \<in> set pop
           \<and> (distinct pop \<longrightarrow> a \<noteq> b)"
proof -
  define n where "n = length pop"
  define i where "i = g 0 mod n"
  define d where "d = g 1 mod (n - 1)"
  define j where "j = (i + 1 + d) mod n"
  have pos: "0 < n" "0 < n - 1" using assms unfolding n_def by linarith+
  have i: "i < n" unfolding i_def using pos(1) by (rule mod_less_divisor)
  have j: "j < n" unfolding j_def using pos(1) by (rule mod_less_divisor)
  have d: "d < n - 1" unfolding d_def using pos(2) by (rule mod_less_divisor)
  have ne: "i \<noteq> j" unfolding j_def using shifted_index_neq[OF i d] by simp
  have "\<not> n < 2" using assms by (simp add: n_def)
  then have "random_sample2 g pop = Inr ((pop ! i, pop ! j), \<lambda>i. g (Suc (Suc i)))"
    by (simp add: random_sample2_def draw_def Let_def n_def[symmetric] i_def j_def d_def)
  moreover have "pop ! i \<in> set pop" "pop ! j \<in> set pop"
    using i j by (simp_all add: n_def)
  moreover have "distinct pop \<longrightarrow> pop ! i \<noteq> pop ! j"
    using i j ne by (simp add: n_def nth_eq_iff_index_eq)
  ultimately show ?thesis by blast
qed

lemma random_swap_key_bijection:
  assumes "is_bijection k" "set_order_ok ord"
  shows "\<exists>k' g'. random_swap_key ord g k = Inr (k', g') \<and> map fst k' = map fst k \<and> is_bijection k'"
proof -
  note v = bijection_values[OF assms]
  have "2 \<le> length (ord (map snd k))" using v(2) by simp
  from random_sample2_result[OF this, of g] obtain a b g' where
    s: "random_sample2 g (ord (map snd k)) = Inr ((a, b), g')" "a \<in> set ALPH" "b \<in> set ALPH"
    using v(1) by auto
  have "random_swap_key ord g k = Inr (swap_images a b k, g')"
    using s(1) by (simp add: random_swap_key_def)
  then show ?thesis
    using swap_images_bijection[OF assms(1) s(2,3)] swap_images_fst by simp
qed

lemma shake_loop_bijection:
  assumes "set_order_ok ord"
  shows "is_bijection k \<Longrightarrow>
    \<exists>k' g'. for_loop (\<lambda>_ (m, g'). random_swap_key ord g' m) xs (k, g) = Inr (k', g')
        \<and> map fst k' = map fst k \<and> is_bijection k'"
proof (induction xs arbitrary: k g)
  case Nil
  then show ?case by simp
next
  case (Cons x xs)
  from random_swap_key_bijection[OF Cons.prems assms, of g] obtain k1 g1 where
    s: "random_swap_key ord g k = Inr (k1, g1)" "map fst k1 = map fst k" "is_bijection k1" by blast
  from Cons.IH[OF s(3), of g1] s(1,2) show ?case by simp
qed

lemma shake_key_bijection:
  assumes "is_bijection k" "set_order_ok ord"
  shows "\<exists>k' g'. shake_key ord g k shakes = Inr (k', g') \<and> map fst k' = map fst k \<and> is_bijection k'"
  unfolding shake_key_def using shake_loop_bijection[OF assms(2) assms(1)] by simp

lemma fold_add_sum:
  fixes s0 :: real
  shows "fold (\<lambda>i s. s + f i) [0..<m] s0 = s0 + (\<Sum>i<m. f i)"
  by (induction m arbitrary: s0) (simp_all add: algebra_simps)

lemma fold_lexicon:
  fixes s0 :: real
  shows "fold (\<lambda>w s. if count_list words w \<noteq> 0 then s + 6.0 * real (count_list words w) else s)
           ws s0
         = s0 + (\<Sum>w\<leftarrow>ws. 6.0 * real (count_list words w))"
  by (induction ws arbitrary: s0) (simp_all add: algebra_simps)

lemma slice2: "i + 1 < length l \<Longrightarrow> take 2 (drop i l) = [l ! i, l ! (i + 1)]"
proof -
  assume a: "i + 1 < length l"
  have "drop i l = l ! i # l ! (i + 1) # drop (i + 2) l"
    using a by (metis Cons_nth_drop_Suc Suc_eq_plus1 add_2_eq_Suc' add_lessD1)
  then show ?thesis by simp
qed

lemma slice3: "i + 2 < length l \<Longrightarrow> take 3 (drop i l) = [l ! i, l ! (i + 1), l ! (i + 2)]"
proof -
  assume a: "i + 2 < length l"
  have "drop i l = l ! i # drop (i + 1) l"
    using a by (simp add: Cons_nth_drop_Suc)
  also have "drop (i + 1) l = l ! (i + 1) # drop (i + 2) l"
    using a Cons_nth_drop_Suc[of "i + 1" l] by simp
  also have "drop (i + 2) l = l ! (i + 2) # drop (i + 3) l"
    using a Cons_nth_drop_Suc[of "i + 2" l] by (simp add: numeral_3_eq_3)
  finally show ?thesis by (simp add: numeral_3_eq_3)
qed

lemma score_text_eq_formula:
  assumes "1 \<le> length (only_letters plain)"
  shows "score_text plain = Inr (score_formula plain)"
proof -
  define l where "l = only_letters plain"
  define n where "n = length l"
  have n: "n \<noteq> 0" "max 1 n = n" using assms unfolding n_def l_def by linarith+
  have b: "(\<Sum>i<n - 1. dict_get BIGRAM_SCORES (take 2 (drop i l)) (- 0.8))
         = (\<Sum>i<n - 1. dict_get BIGRAM_SCORES [l ! i, l ! (i + 1)] (- 0.8))"
    by (rule sum.cong) (simp_all add: slice2 n_def)
  have t: "(\<Sum>i<n - 2. dict_get TRIGRAM_SCORES (take 3 (drop i l)) (- 0.5))
         = (\<Sum>i<n - 2. dict_get TRIGRAM_SCORES [l ! i, l ! (i + 1), l ! (i + 2)] (- 0.5))"
    by (rule sum.cong) (simp_all add: slice3 n_def)
  show ?thesis
    unfolding score_text_def score_formula_def Let_def l_def[symmetric] n_def[symmetric]
      fold_add_sum fold_lexicon b t
    using n by (simp add: py_div_def bindE_def)
qed

lemma dict_get_cases:
  "dict_get items k d = d \<or> (k, dict_get items k d) \<in> set items"
  unfolding dict_get_def
  by (cases "map_of (rev items) k") (auto dest: map_of_SomeD)

lemma bigram_lower: "- 0.8 \<le> dict_get BIGRAM_SCORES k (- 0.8)"
proof -
  have "\<forall>(k, v) \<in> set BIGRAM_SCORES. - 0.8 \<le> v"
    by (simp add: BIGRAM_SCORES_def)
  then show ?thesis
    using dict_get_cases[of BIGRAM_SCORES k "- 0.8"] by auto
qed

lemma trigram_lower: "- 0.5 \<le> dict_get TRIGRAM_SCORES k (- 0.5)"
proof -
  have "\<forall>(k, v) \<in> set TRIGRAM_SCORES. - 0.5 \<le> v"
    by (simp add: TRIGRAM_SCORES_def)
  then show ?thesis
    using dict_get_cases[of TRIGRAM_SCORES k "- 0.5"] by auto
qed

lemma penalty_upper:
  fixes r :: real
  assumes "0 \<le> r" "r \<le> 1"
  shows "50.0 * (r - 0.45) ^ 2 \<le> 15.125"
proof -
  have "\<bar>r - 9 / 20\<bar> \<le> 11 / 20" using assms by linarith
  then have "\<bar>r - 9 / 20\<bar> ^ 2 \<le> (11 / 20) ^ 2"
    by (rule power_mono) simp
  then have "(r - 9 / 20) ^ 2 \<le> (11 / 20) ^ 2"
    by (simp only: power2_abs)
  moreover have "(11 / 20 :: real) ^ 2 = 121 / 400" by (simp add: power2_eq_square)
  ultimately have "(r - 9 / 20) ^ 2 \<le> 121 / 400" by simp
  then show ?thesis by simp
qed

lemma score_formula_lower:
  assumes "1 \<le> length (only_letters plain)"
  shows "- 0.8 * real (length (only_letters plain) - 1)
         - 0.5 * real (length (only_letters plain) - 2) - 15.125 \<le> score_formula plain"
proof -
  define l where "l = only_letters plain"
  define n where "n = length l"
  define v where "v = length (filter (\<lambda>ch. ch \<in> VOWELS) l)"
  have npos: "0 < n" using assms unfolding n_def l_def by linarith
  have b: "real (n - 1) * (- 0.8) \<le> (\<Sum>i<n - 1. dict_get BIGRAM_SCORES [l ! i, l ! (i + 1)] (- 0.8))"
    using sum_bounded_below[of "{..<n - 1}" "- 0.8"
        "\<lambda>i. dict_get BIGRAM_SCORES [l ! i, l ! (i + 1)] (- 0.8)"] bigram_lower
    by simp
  have t: "real (n - 2) * (- 0.5)
        \<le> (\<Sum>i<n - 2. dict_get TRIGRAM_SCORES [l ! i, l ! (i + 1), l ! (i + 2)] (- 0.5))"
    using sum_bounded_below[of "{..<n - 2}" "- 0.5"
        "\<lambda>i. dict_get TRIGRAM_SCORES [l ! i, l ! (i + 1), l ! (i + 2)] (- 0.5)"] trigram_lower
    by simp
  have w: "0 \<le> (\<Sum>w\<leftarrow>COMMON_WORDS. 6.0 * real (count_list (py_split plain) w))"
    by (rule sum_list_nonneg) auto
  have "v \<le> n" unfolding v_def n_def by (rule length_filter_le)
  then have "0 \<le> real v / real n" "real v / real n \<le> 1"
    using npos by simp_all
  then have p: "50.0 * (real v / real n - 0.45) ^ 2 \<le> 15.125"
    by (rule penalty_upper)
  show ?thesis
    unfolding score_formula_def Let_def l_def[symmetric] n_def[symmetric] v_def[symmetric]
    using b t w p by (simp add: algebra_simps)
qed

lemma score_above_sentinel:
  assumes "1 \<le> length (only_letters plain)" "length (only_letters plain) \<le> 769230758"
  shows "- 1000000000 < score_formula plain"
proof -
  define n where "n = length (only_letters plain)"
  have "real (n - 1) \<le> real n" "real (n - 2) \<le> real n" by simp_all
  moreover have "real n \<le> 769230758" using assms(2) by (simp add: n_def)
  ultimately have "- 1000000000 < - 0.8 * real (n - 1) - 0.5 * real (n - 2) - 15.125"
    by simp
  then show ?thesis
    using score_formula_lower[OF assms(1)] by (simp add: n_def)
qed

lemma apply_mapping_loop:
  assumes "\<forall>c \<in> set t. c \<in> set ALPH \<longrightarrow> map_of k c \<noteq> None"
  shows "for_loop (\<lambda>ch res.
        if ch \<in> set ALPH
        then (case map_of k ch of
                None \<Rightarrow> Inl KeyError
              | Some p \<Rightarrow> Inr (res @ [p]))
        else Inr (res @ [ch])) t res
    = Inr (res @ map (\<lambda>ch. if ch \<in> set ALPH then the (map_of k ch) else ch) t)"
  using assms
proof (induction t arbitrary: res)
  case Nil
  then show ?case by simp
next
  case (Cons c t)
  show ?case
  proof (cases "c \<in> set ALPH")
    case True
    with Cons.prems obtain p where p: "map_of k c = Some p" by auto
    have "\<forall>c \<in> set t. c \<in> set ALPH \<longrightarrow> map_of k c \<noteq> None" using Cons.prems by simp
    from Cons.IH[OF this, of "res @ [p]"] True p show ?thesis by simp
  next
    case False
    have "\<forall>c \<in> set t. c \<in> set ALPH \<longrightarrow> map_of k c \<noteq> None" using Cons.prems by simp
    from Cons.IH[OF this, of "res @ [c]"] False show ?thesis by simp
  qed
qed

lemma bijection_total:
  assumes "is_bijection k" "c \<in> set ALPH"
  shows "map_of k c \<noteq> None"
proof -
  have "c \<in> fst ` set k" using assms unfolding is_bijection_def by (metis list.set_map)
  then show ?thesis by (simp add: map_of_eq_None_iff)
qed

lemma apply_mapping_eq:
  assumes "is_bijection k"
  shows "apply_mapping t k
    = Inr (map (\<lambda>ch. if ch \<in> set ALPH then the (map_of k ch) else ch) t)"
  unfolding apply_mapping_def
  using apply_mapping_loop[of t k "[]"] bijection_total[OF assms] by simp

lemma apply_mapping_positions:
  assumes "is_bijection k"
  shows "\<exists>out. apply_mapping t k = Inr out \<and> length out = length t \<and>
           (\<forall>i<length t.
              (t ! i \<notin> set ALPH \<longrightarrow> out ! i = t ! i) \<and>
              (t ! i \<in> set ALPH \<longrightarrow> map_of k (t ! i) = Some (out ! i)))"
proof -
  let ?out = "map (\<lambda>ch. if ch \<in> set ALPH then the (map_of k ch) else ch) t"
  have "\<forall>i<length t. t ! i \<in> set ALPH \<longrightarrow> map_of k (t ! i) = Some (?out ! i)"
    using bijection_total[OF assms] by auto
  then show ?thesis
    using apply_mapping_eq[OF assms, of t] by simp
qed

lemma atbash_bijection: "is_bijection atbash_key"
proof -
  have "map fst atbash_key = ALPH" "map snd atbash_key = rev ALPH"
    by (simp_all add: atbash_key_def)
  then show ?thesis
    unfolding is_bijection_def using distinct_ALPH by simp
qed

lemma remdups_order_ok: "set_order_ok remdups"
  by (simp add: set_order_ok_def)

lemma only_letters_letterfree:
  "only_letters t = [] \<Longrightarrow> apply_mapping t k = Inr t"
proof -
  assume "only_letters t = []"
  then have n: "\<forall>c \<in> set t. c \<notin> set ALPH"
    by (simp add: only_letters_def filter_empty_conv)
  then have "\<forall>c \<in> set t. c \<in> set ALPH \<longrightarrow> map_of k c \<noteq> None" by simp
  from apply_mapping_loop[OF this, of "[]"] n show ?thesis
    by (simp add: apply_mapping_def map_idI)
qed

lemma for_loop_invariant:
  assumes "\<And>x s. x \<in> set xs \<Longrightarrow> I s \<Longrightarrow> \<exists>s'. body x s = Inr s' \<and> I s'" "I s"
  shows "\<exists>s'. for_loop body xs s = Inr s' \<and> I s'"
  using assms
proof (induction xs arbitrary: s)
  case Nil
  then show ?case by simp
next
  case (Cons x xs)
  from Cons.prems(1)[of x s] Cons.prems(2) obtain s1 where s1: "body x s = Inr s1" "I s1"
    by auto
  have "\<exists>s'. for_loop body xs s1 = Inr s' \<and> I s'"
    using Cons.IH[OF _ s1(2)] Cons.prems(1) by simp
  then show ?case using s1(1) by simp
qed

lemma sorted_snoc:
  assumes "sorted (map f h)" "h \<noteq> []" "f (last h) \<le> (f e :: real)"
  shows "sorted (map f (h @ [e]))"
proof -
  have "\<forall>x \<in> set h. f x \<le> f (last h)"
  proof
    fix x assume "x \<in> set h"
    then obtain i where i: "i < length h" "h ! i = x" by (auto simp: in_set_conv_nth)
    have "map f h ! i \<le> map f h ! (length h - 1)"
      using assms(1,2) i(1) by (intro sorted_nth_mono) auto
    then show "f x \<le> f (last h)"
      using i assms(2) by (simp add: last_conv_nth)
  qed
  then show ?thesis using assms by (auto simp: sorted_append)
qed

lemma hist_inv_init: "hist_inv s0 s0 [(Seed, s0, s0)]"
  by (simp add: hist_inv_def counted_def origin_of_def score_of_def best_after_def)

lemma hist_inv_other:
  assumes "hist_inv s0 best h" "orig = Start \<or> orig = Rejected"
  shows "hist_inv s0 best (h @ [(orig, s, best)])"
proof -
  have c: "counted (h @ [(orig, s, best)]) = counted h"
    using assms(2) by (auto simp: counted_def origin_of_def)
  have "sorted (map best_after (h @ [(orig, s, best)]))"
    using assms(1) by (intro sorted_snoc) (simp_all add: hist_inv_def best_after_def)
  then show ?thesis
    using assms unfolding hist_inv_def c
    by (auto simp: best_after_def origin_of_def)
qed

lemma hist_inv_accept:
  assumes "hist_inv s0 best h"
  shows "hist_inv s0 (max best s) (h @ [(Accepted, s, max best s)])"
proof -
  have c: "counted (h @ [(Accepted, s, max best s)]) = counted h @ [s]"
    by (simp add: counted_def origin_of_def score_of_def)
  have ne: "set (counted h) \<noteq> {}" using assms by (auto simp: hist_inv_def)
  have m: "Max (set (counted h @ [s])) = max best s"
    using assms ne by (simp add: hist_inv_def max.commute)
  have "sorted (map best_after (h @ [(Accepted, s, max best s)]))"
    using assms by (intro sorted_snoc) (simp_all add: hist_inv_def best_after_def)
  then show ?thesis
    using assms unfolding hist_inv_def c m
    by (auto simp: best_after_def origin_of_def)
qed

lemma hist_inv_seed_le: "hist_inv s0 best h \<Longrightarrow> s0 \<le> best"
  by (simp add: hist_inv_def)

lemma score_text_total: "\<exists>s. score_text p = Inr s"
proof (cases "length (only_letters p) = 0")
  case True
  then show ?thesis by (simp add: score_text_def)
next
  case False
  then have "1 \<le> length (only_letters p)" by linarith
  from score_text_eq_formula[OF this] show ?thesis by blast
qed

lemma temperature_value:
  assumes "iters \<noteq> 0"
  shows "temperature iters t = Inr (max Tmin (T0 * (1 - real_of_int t / real_of_int iters)))"
  using assms by (simp add: temperature_def py_div_def)

lemma accept_move_inv:
  assumes "search_inv c p0 k0 s0 st" "is_bijection new_key"
    "apply_mapping c new_key = Inr new_plain" "score_text new_plain = Inr new_score"
  shows "search_inv c p0 k0 s0 (accept_move new_key new_plain new_score g st)"
proof (cases "new_score > best_score st")
  case True
  then have m: "max (best_score st) new_score = new_score" by simp
  have s: "s0 \<le> best_score st"
    using assms(1) hist_inv_seed_le[of s0 "best_score st" "history st"] by (simp add: search_inv_def)
  have "hist_inv s0 new_score (history st @ [(Accepted, new_score, new_score)])"
    using hist_inv_accept[of s0 "best_score st" "history st" new_score] assms(1) m
    by (simp add: search_inv_def)
  then show ?thesis
    using True assms s by (simp add: search_inv_def accept_move_def Let_def)
next
  case False
  then have m: "max (best_score st) new_score = best_score st" by simp
  have "hist_inv s0 (best_score st) (history st @ [(Accepted, new_score, best_score st)])"
    using hist_inv_accept[of s0 "best_score st" "history st" new_score] assms(1) m
    by (simp add: search_inv_def)
  then show ?thesis
    using False assms by (simp add: search_inv_def accept_move_def Let_def)
qed

lemma reject_move_inv:
  assumes "search_inv c p0 k0 s0 st"
  shows "search_inv c p0 k0 s0
           (st\<lparr>gen := g, history := history st @ [(Rejected, new_score, best_score st)]\<rparr>)"
  using assms hist_inv_other[of s0 "best_score st" "history st" Rejected new_score]
  by (simp add: search_inv_def)

lemma start_inv:
  assumes "search_inv c p0 k0 s0 st" "is_bijection k"
  shows "search_inv c p0 k0 s0
           (st\<lparr>current_key := k, current_plain := p, current_score := s, gen := g,
               history := history st @ [(Start, s, best_score st)]\<rparr>)"
  using assms hist_inv_other[of s0 "best_score st" "history st" Start s]
  by (simp add: search_inv_def)

lemma anneal_step_inv:
  assumes "set_order_ok ord" "iters \<noteq> 0" "search_inv c p0 k0 s0 st"
  shows "\<exists>st'. anneal_step ord c iters t st = Inr st' \<and> search_inv c p0 k0 s0 st'"
proof -
  define T where "T = max Tmin (T0 * (1 - real_of_int t / real_of_int iters))"
  have T: "temperature iters t = Inr T" unfolding T_def by (rule temperature_value[OF assms(2)])
  have cur: "is_bijection (current_key st)" using assms(3) by (simp add: search_inv_def)
  from random_swap_key_bijection[OF cur assms(1), of "gen st"] obtain new_key g1 where
    k: "random_swap_key ord (gen st) (current_key st) = Inr (new_key, g1)" "is_bijection new_key"
    by blast
  obtain new_plain where p: "apply_mapping c new_key = Inr new_plain"
    using apply_mapping_eq[OF k(2)] by blast
  obtain new_score where s: "score_text new_plain = Inr new_score"
    using score_text_total by blast
  note acc = accept_move_inv[OF assms(3) k(2) p s]
  show ?thesis
  proof (cases "new_score - current_score st \<ge> 0")
    case True
    then show ?thesis
      using T k(1) p s acc by (simp add: anneal_step_def Let_def)
  next
    case False
    obtain u g2 where r: "random_random g1 = (u, g2)" by (cases "random_random g1")
    define x where "x = (new_score - current_score st) / max T 0.000001"
    have pos: "0 < max T 0.000001" by simp
    then have d: "py_div (new_score - current_score st) (max T 0.000001) = Inr x"
      by (simp add: py_div_def x_def)
    have "x < 0" unfolding x_def using False pos by (simp add: divide_neg_pos)
    then have e: "math_exp x = Inr (exp x)" by (simp add: math_exp_def)
    show ?thesis
      using False T k(1) p s r d e acc[of g2] reject_move_inv[OF assms(3), where g = g2 and new_score = new_score]
      by (simp add: anneal_step_def Let_def)
  qed
qed

lemma anneal_loop_inv:
  assumes "set_order_ok ord" "search_inv c p0 k0 s0 st"
  shows "\<exists>st'. for_loop (anneal_step ord c iters) [1..iters] st = Inr st' \<and> search_inv c p0 k0 s0 st'"
proof (cases "iters = 0")
  case True
  then show ?thesis using assms(2) by simp
next
  case False
  show ?thesis
    by (rule for_loop_invariant[where I = "search_inv c p0 k0 s0"])
      (use anneal_step_inv[OF assms(1) False] assms(2) in auto)
qed

lemma restart_step_inv:
  assumes "set_order_ok ord" "is_bijection base_key" "search_inv c p0 k0 s0 st"
  shows "\<exists>st'. restart_step ord c iters base_key r st = Inr st' \<and> search_inv c p0 k0 s0 st'"
proof -
  have "\<exists>start_key g1. (if r = 0 then Inr (base_key, gen st) else shake_key ord (gen st) base_key 50)
          = Inr (start_key, g1) \<and> is_bijection start_key"
    using shake_key_bijection[OF assms(2) assms(1), of "gen st" 50] assms(2) by auto
  then obtain start_key g1 where
    k: "(if r = 0 then Inr (base_key, gen st) else shake_key ord (gen st) base_key 50)
          = Inr (start_key, g1)" "is_bijection start_key" by blast
  obtain start_plain where p: "apply_mapping c start_key = Inr start_plain"
    using apply_mapping_eq[OF k(2)] by blast
  obtain start_score where s: "score_text start_plain = Inr start_score"
    using score_text_total by blast
  from anneal_loop_inv[OF assms(1) start_inv[OF assms(3) k(2), where p = start_plain and s = start_score and g = g1], of iters]
  show ?thesis
    unfolding restart_step_def k(1) using p s by simp
qed

lemma decipher_run_inv:
  assumes "set_order_ok ord"
  shows "\<exists>k0 p0 s0 st.
     initial_key_from_freq (only_letters c) force_e = Inr k0 \<and>
     apply_mapping c k0 = Inr p0 \<and> score_text p0 = Inr s0 \<and>
     decipher_run ord mt_seed g c restarts iters seed force_e = Inr st \<and>
     search_inv c p0 k0 s0 st"
proof -
  obtain k0 where k: "initial_key_from_freq (only_letters c) force_e = Inr k0" "is_bijection k0"
    using initial_key_bijection by blast
  obtain p0 where p: "apply_mapping c k0 = Inr p0"
    using apply_mapping_eq[OF k(2)] by blast
  obtain s0 where s: "score_text p0 = Inr s0"
    using score_text_total by blast
  define g0 where "g0 = (case seed of None \<Rightarrow> g | Some s \<Rightarrow> mt_seed s)"
  define init where "init = \<lparr>current_key = k0, current_plain = p0, current_score = s0,
              best_key = k0, best_plain = p0, best_score = s0,
              gen = g0, history = [(Seed, s0, s0)]\<rparr>"
  have "search_inv c p0 k0 s0 init"
    using k(2) p s hist_inv_init[of s0] by (simp add: search_inv_def init_def)
  then have "\<exists>st. for_loop (restart_step ord c iters k0) [0..restarts - 1] init = Inr st
        \<and> search_inv c p0 k0 s0 st"
    by (intro for_loop_invariant[where I = "search_inv c p0 k0 s0"])
      (use restart_step_inv[OF assms k(2)] in auto)
  then show ?thesis
    using k(1) p s by (simp add: decipher_run_def Let_def init_def g0_def)
qed

lemma bigram_ending_z: "dict_get BIGRAM_SCORES [x, 122] (- 0.8) = - 0.8"
  by (simp add: dict_get_def BIGRAM_SCORES_def str_def)

lemma trigram_ending_z: "dict_get TRIGRAM_SCORES [x, y, 122] (- 0.5) = - 0.5"
  by (simp add: dict_get_def TRIGRAM_SCORES_def str_def)

lemma bigram_de: "dict_get BIGRAM_SCORES [100, 101] (- 0.8) = 4.5"
  by (simp add: dict_get_def BIGRAM_SCORES_def str_def)

lemma split_from_no_space:
  "\<forall>c \<in> set cs. \<not> is_space c \<Longrightarrow> split_from w cs = (if w @ cs = [] then [] else [w @ cs])"
  by (induction cs arbitrary: w) auto

lemma long_word_not_common: "7 < length w \<Longrightarrow> w \<notin> set COMMON_WORDS"
  by (auto simp: COMMON_WORDS_def str_def)

lemma lexicon_de: "(\<Sum>w\<leftarrow>COMMON_WORDS. 6.0 * real (count_list [[100, 101]] w)) = 6"
  by (simp add: COMMON_WORDS_def str_def)

lemma de_in_lexicon: "[100, 101] \<in> set COMMON_WORDS"
  by (simp add: COMMON_WORDS_def str_def)

lemma long_text_facts:
  assumes "8 \<le> N"
  shows "only_letters (str ''de '' @ replicate N 122) = 100 # 101 # replicate N 122"
    and "py_split (str ''de '' @ replicate N 122) = [[100, 101], replicate N 122]"
proof -
  show "only_letters (str ''de '' @ replicate N 122) = 100 # 101 # replicate N 122"
    by (simp add: only_letters_def str_def ALPH_codes)
  have "\<forall>c \<in> set (replicate N (122::nat)). \<not> is_space c" by (simp add: is_space_def)
  then have "split_from [] (replicate N 122) = [replicate N 122]"
    using assms split_from_no_space[of "replicate N 122" "[]"] by auto
  then show "py_split (str ''de '' @ replicate N 122) = [[100, 101], replicate N 122]"
    by (simp add: py_split_def str_def is_space_def)
qed

lemma long_text_score:
  assumes "8 \<le> N"
  shows "score_formula (str ''de '' @ replicate N 122) \<le> 10.5 - 1.3 * real N"
proof -
  define l where "l = (100::nat) # 101 # replicate N 122"
  have len: "length l = N + 2" by (simp add: l_def)
  have nth: "\<And>i. i < N \<Longrightarrow> l ! Suc (Suc i) = 122" by (simp add: l_def)
  have "(\<Sum>i<N + 1. dict_get BIGRAM_SCORES [l ! i, l ! (i + 1)] (- 0.8))
      = dict_get BIGRAM_SCORES [l ! 0, l ! 1] (- 0.8)
        + (\<Sum>i<N. dict_get BIGRAM_SCORES [l ! (i + 1), l ! (i + 2)] (- 0.8))"
    using sum.lessThan_Suc_shift[of "\<lambda>i. dict_get BIGRAM_SCORES [l ! i, l ! (i + 1)] (- 0.8)" N]
    by simp
  also have "dict_get BIGRAM_SCORES [l ! 0, l ! 1] (- 0.8) = 4.5"
    using bigram_de by (simp add: l_def)
  also have "(\<Sum>i<N. dict_get BIGRAM_SCORES [l ! (i + 1), l ! (i + 2)] (- 0.8))
      = (\<Sum>i<N. - 0.8)"
    by (rule sum.cong) (use bigram_ending_z in \<open>simp_all add: nth\<close>)
  finally have b: "(\<Sum>i<N + 1. dict_get BIGRAM_SCORES [l ! i, l ! (i + 1)] (- 0.8))
      = 4.5 - 0.8 * real N" by simp
  have "(\<Sum>i<N. dict_get TRIGRAM_SCORES [l ! i, l ! (i + 1), l ! (i + 2)] (- 0.5))
      = (\<Sum>i<N. - 0.5)"
    by (rule sum.cong) (use trigram_ending_z in \<open>simp_all add: nth\<close>)
  then have t: "(\<Sum>i<N. dict_get TRIGRAM_SCORES [l ! i, l ! (i + 1), l ! (i + 2)] (- 0.5))
      = - 0.5 * real N" by simp
  have "replicate N (122::nat) \<notin> set COMMON_WORDS"
    using assms by (intro long_word_not_common) simp
  then have "\<And>w. w \<in> set COMMON_WORDS \<Longrightarrow>
      count_list [[100, 101], replicate N 122] w = count_list [[100, 101]] w"
    by auto
  then have "(\<Sum>w\<leftarrow>COMMON_WORDS. 6.0 * real (count_list [[100, 101], replicate N 122] w))
      = (\<Sum>w\<leftarrow>COMMON_WORDS. 6.0 * real (count_list [[100, 101]] w))"
    by (intro arg_cong[where f = sum_list] map_cong) simp_all
  then have w: "(\<Sum>w\<leftarrow>COMMON_WORDS. 6.0 * real (count_list [[100, 101], replicate N 122] w)) = 6"
    using lexicon_de by simp
  have p: "0 \<le> 50.0 * (real (length (filter (\<lambda>ch. ch \<in> VOWELS) l)) / real (N + 2) - 0.45) ^ 2"
    by simp
  have "score_formula (str ''de '' @ replicate N 122)
      = (4.5 - 0.8 * real N) + (- 0.5 * real N) + 6
        - 50.0 * (real (length (filter (\<lambda>ch. ch \<in> VOWELS) l)) / real (N + 2) - 0.45) ^ 2"
    unfolding score_formula_def long_text_facts[OF assms] l_def[symmetric] Let_def len
    using b t w by simp
  then show ?thesis using p by simp
qed

lemma long_text_below_sentinel:
  "\<exists>s. score_text (str ''de '' @ replicate 1000000000 122) = Inr s \<and> s < - 1000000000"
proof -
  have n: "(8::nat) \<le> 1000000000" by simp
  have "1 \<le> length (only_letters (str ''de '' @ replicate 1000000000 122))"
    unfolding long_text_facts(1)[OF n] by simp
  from score_text_eq_formula[OF this] long_text_score[OF n] show ?thesis by simp
qed

lemma letters_not_space: "c \<in> set ALPH \<Longrightarrow> \<not> is_space c"
  by (auto simp: ALPH_codes is_space_def)

lemma score_two_letters:
  assumes "a \<in> set ALPH" "b \<in> set ALPH"
  shows "score_text [a, b]
    = Inr (dict_get BIGRAM_SCORES [a, b] (- 0.8)
           + (\<Sum>w\<leftarrow>COMMON_WORDS. 6.0 * real (count_list [[a, b]] w))
           - 50.0 * (real (length (filter (\<lambda>ch. ch \<in> VOWELS) [a, b])) / 2 - 0.45) ^ 2)"
proof -
  have l: "only_letters [a, b] = [a, b]" using assms by (simp add: only_letters_def)
  have "\<forall>c \<in> set [a, b]. \<not> is_space c" using assms letters_not_space by simp
  from split_from_no_space[OF this, of "[]"] have p: "py_split [a, b] = [[a, b]]"
    by (simp add: py_split_def)
  have "1 \<le> length (only_letters [a, b])" by (simp add: l)
  from score_text_eq_formula[OF this] show ?thesis
    by (simp add: score_formula_def l p Let_def)
qed

lemma score_ea: "score_text [101, 97] = Inr (- 15.925)"
proof -
  have b: "dict_get BIGRAM_SCORES [101, 97] (- 0.8) = - 0.8"
    by (simp add: dict_get_def BIGRAM_SCORES_def str_def)
  have w: "(\<Sum>w\<leftarrow>COMMON_WORDS. 6.0 * real (count_list [[101, 97]] w)) = 0"
    by (simp add: COMMON_WORDS_def str_def)
  have v: "length (filter (\<lambda>ch. ch \<in> VOWELS) [101, 97]) = 2"
    by (simp add: VOWELS_def str_def)
  have "(101::nat) \<in> set ALPH" "(97::nat) \<in> set ALPH" by (simp_all add: ALPH_codes)
  from score_two_letters[OF this] show ?thesis
    unfolding b w v by (simp add: power2_eq_square)
qed

lemma score_de: "score_text [100, 101] = Inr 10.375"
proof -
  have w: "(\<Sum>w\<leftarrow>COMMON_WORDS. 6.0 * real (count_list [[100, 101]] w)) = 6"
    by (rule lexicon_de)
  have v: "length (filter (\<lambda>ch. ch \<in> VOWELS) [100, 101]) = 1"
    by (simp add: VOWELS_def str_def)
  have "(100::nat) \<in> set ALPH" "(101::nat) \<in> set ALPH" by (simp_all add: ALPH_codes)
  from score_two_letters[OF this] show ?thesis
    unfolding bigram_de w v by (simp add: power2_eq_square)
qed

lemma score_da: "score_text [100, 97] = Inr (- 0.925)"
proof -
  have b: "dict_get BIGRAM_SCORES [100, 97] (- 0.8) = - 0.8"
    by (simp add: dict_get_def BIGRAM_SCORES_def str_def)
  have w: "(\<Sum>w\<leftarrow>COMMON_WORDS. 6.0 * real (count_list [[100, 97]] w)) = 0"
    by (simp add: COMMON_WORDS_def str_def)
  have v: "length (filter (\<lambda>ch. ch \<in> VOWELS) [100, 97]) = 1"
    by (simp add: VOWELS_def str_def)
  have "(100::nat) \<in> set ALPH" "(97::nat) \<in> set ALPH" by (simp_all add: ALPH_codes)
  from score_two_letters[OF this] show ?thesis
    unfolding b w v by (simp add: power2_eq_square)
qed

lemma decode_seed_xy: "apply_mapping [120, 121] seed_xy = Inr [101, 97]"
  by (simp add: apply_mapping_def ALPH_codes seed_xy_def)

lemma decode_shaken_xy: "apply_mapping [120, 121] shaken_xy = Inr [100, 101]"
  by (simp add: apply_mapping_def ALPH_codes seed_xy_def shaken_xy_def swap_images_def)

lemma seed_key_xy: "initial_key_from_freq [120, 121] True = Inr seed_xy"
  by code_simp

lemma seed_xy_bijection: "is_bijection seed_xy"
  using initial_key_bijection[of "[120, 121]" True] seed_key_xy by simp

lemma swap_images_commute: "swap_images b a k = swap_images a b k"
  by (induction k) (auto simp: swap_images_def)

lemma bijection_images:
  assumes "is_bijection k"
  shows "distinct (map snd k)" "length (map snd k) = 27"
proof -
  have m: "mset (map snd k) = mset ALPH" using assms by (simp only: is_bijection_def)
  show "distinct (map snd k)"
    using m distinct_ALPH by (metis mset_eq_imp_distinct_iff)
  show "length (map snd k) = 27"
    using m length_ALPH by (metis size_mset)
qed

lemma random_swap_key_remdups:
  assumes "is_bijection k"
  shows "random_swap_key remdups g k
    = Inr (swap_images (map snd k ! (g 0 mod 27))
             (map snd k ! ((g 0 mod 27 + 1 + g 1 mod 26) mod 27)) k,
           \<lambda>i. g (Suc (Suc i)))"
proof -
  note b = bijection_images[OF assms]
  have r: "remdups (map snd k) = map snd k" using b(1) by (rule distinct_remdups_id)
  show ?thesis
    unfolding random_swap_key_def random_sample2_def draw_def Let_def r
    using b(2) by simp
qed

lemma tape_shift_empty: "(\<lambda>i. tape [] (Suc (Suc i))) = tape []"
  by (simp add: tape_def fun_eq_iff)

lemma zero_swaps_cancel:
  assumes "is_bijection k"
  shows "\<exists>k1. random_swap_key remdups (tape []) k = Inr (k1, tape []) \<and> is_bijection k1 \<and>
          random_swap_key remdups (tape []) k1 = Inr (k, tape [])"
proof -
  note b = bijection_images[OF assms]
  define a where "a = map snd k ! 0"
  define c where "c = map snd k ! 1"
  have ne: "a \<noteq> c"
    unfolding a_def c_def using b nth_eq_iff_index_eq[of "map snd k" 0 1] by linarith
  have mem: "a \<in> set ALPH" "c \<in> set ALPH"
  proof -
    have "set (map snd k) = set ALPH" using assms unfolding is_bijection_def by (metis set_mset_mset)
    moreover have "a \<in> set (map snd k)" "c \<in> set (map snd k)"
      unfolding a_def c_def using b(2) by (simp_all only: nth_mem)
    ultimately show "a \<in> set ALPH" "c \<in> set ALPH" by simp_all
  qed
  define k1 where "k1 = swap_images a c k"
  have s1: "random_swap_key remdups (tape []) k = Inr (k1, tape [])"
    unfolding random_swap_key_remdups[OF assms] tape_shift_empty
    by (simp add: tape_def k1_def a_def c_def)
  have b1: "is_bijection k1" unfolding k1_def by (rule swap_images_bijection[OF assms mem])
  have "map snd k1 ! 0 = c" "map snd k1 ! 1 = a"
    unfolding k1_def swap_images_snd using b ne by (simp_all add: a_def c_def)
  then have "random_swap_key remdups (tape []) k1 = Inr (swap_images c a k1, tape [])"
    unfolding random_swap_key_remdups[OF b1] tape_shift_empty
    by (simp add: tape_def)
  then have "random_swap_key remdups (tape []) k1 = Inr (k, tape [])"
    by (simp add: k1_def swap_images_commute[of c a] swap_twice)
  with s1 b1 show ?thesis by blast
qed

lemma even_zero_shakes:
  assumes "is_bijection k"
  shows "length xs = 2 * m \<Longrightarrow>
    for_loop (\<lambda>_ (m, g'). random_swap_key remdups g' m) xs (k, tape []) = Inr (k, tape [])"
proof (induction m arbitrary: xs)
  case 0
  then show ?case by simp
next
  case (Suc m)
  then obtain x y ys where xs: "xs = x # y # ys" "length ys = 2 * m"
    by (cases xs; cases "tl xs") auto
  from zero_swaps_cancel[OF assms] obtain k1 where
    "random_swap_key remdups (tape []) k = Inr (k1, tape [])"
    "random_swap_key remdups (tape []) k1 = Inr (k, tape [])" by blast
  then show ?case using Suc.IH[OF xs(2)] by (simp add: xs(1))
qed

lemma first_shake_xy:
  "random_swap_key remdups (tape [24, 7, 25, 6]) seed_xy
     = Inr (swap_images 101 100 seed_xy, tape [25, 6])"
proof -
  have "(\<lambda>i. tape [24, 7, 25, 6] (Suc (Suc i))) = tape [25, 6]"
    by (auto simp: tape_def fun_eq_iff less_Suc_eq numeral_2_eq_2 numeral_eq_Suc)
  moreover have "map snd seed_xy ! 24 = 101" "map snd seed_xy ! 5 = 100"
    by (simp_all add: seed_xy_def)
  ultimately show ?thesis
    unfolding random_swap_key_remdups[OF seed_xy_bijection]
    by (simp add: tape_def)
qed

lemma second_shake_xy:
  "random_swap_key remdups (tape [25, 6]) (swap_images 101 100 seed_xy)
     = Inr (shaken_xy, tape [])"
proof -
  have b: "is_bijection (swap_images 101 100 seed_xy)"
    by (rule swap_images_bijection[OF seed_xy_bijection]) (simp_all add: ALPH_codes)
  have "(\<lambda>i. tape [25, 6] (Suc (Suc i))) = tape []"
    by (auto simp: tape_def fun_eq_iff)
  moreover have "map snd (swap_images 101 100 seed_xy) ! 25 = 97"
    "map snd (swap_images 101 100 seed_xy) ! 5 = 101"
    by (simp_all add: seed_xy_def swap_images_def)
  ultimately show ?thesis
    unfolding random_swap_key_remdups[OF b]
    by (simp add: tape_def shaken_xy_def)
qed

lemma shaken_xy_bijection: "is_bijection shaken_xy"
  unfolding shaken_xy_def
  by (intro swap_images_bijection seed_xy_bijection) (simp_all add: ALPH_codes)

lemma shake_xy: "shake_key remdups (tape [24, 7, 25, 6]) seed_xy 50 = Inr (shaken_xy, tape [])"
proof -
  have "[0..<nat 50] = 0 # 1 # [2..<50]"
    using upt_conv_Cons[of 0 50] upt_conv_Cons[of 1 50] by (simp add: numeral_2_eq_2)
  moreover have "length [2..<50::nat] = 2 * 24" by simp
  ultimately show ?thesis
    using even_zero_shakes[OF shaken_xy_bijection, of "[2..<50]" 24]
    by (simp add: shake_key_def first_shake_xy second_shake_xy)
qed

lemma str_xy: "str ''xy'' = [120, 121]"
  by (simp add: str_def)

lemma letters_xy: "only_letters [120, 121] = [120, 121]"
  by (simp add: only_letters_def ALPH_codes)

lemma run_two_restarts:
  "decipher_run remdups zero_seed (tape [24, 7, 25, 6]) (str ''xy'') 2 0 None True
     = Inr \<lparr>current_key = shaken_xy, current_plain = [100, 101], current_score = 10.375,
            best_key = seed_xy, best_plain = [101, 97], best_score = - 15.925,
            gen = tape [],
            history = [(Seed, - 15.925, - 15.925), (Start, - 15.925, - 15.925),
                       (Start, 10.375, - 15.925)]\<rparr>"
proof -
  have r: "[0..2 - 1] = [0, 1::int]" "[1..0::int] = []"
    by (simp_all add: upto_rec1)
  show ?thesis
    unfolding decipher_run_def str_xy letters_xy Let_def r
    by (simp add: seed_key_xy decode_seed_xy score_ea restart_step_def r
        shake_xy decode_shaken_xy score_de)
qed

lemma decode_swap_de: "apply_mapping [120, 121] (swap_images 101 100 seed_xy) = Inr [100, 97]"
  by (simp add: apply_mapping_def ALPH_codes seed_xy_def swap_images_def)

lemma decode_swap_rj: "apply_mapping [120, 121] (swap_images 114 106 seed_xy) = Inr [101, 97]"
  by (simp add: apply_mapping_def ALPH_codes seed_xy_def swap_images_def)

lemma random_swap_key_reversed:
  assumes "is_bijection k"
  shows "random_swap_key reversed_order g k
    = Inr (swap_images (rev (map snd k) ! (g 0 mod 27))
             (rev (map snd k) ! ((g 0 mod 27 + 1 + g 1 mod 26) mod 27)) k,
           \<lambda>i. g (Suc (Suc i)))"
proof -
  note b = bijection_images[OF assms]
  have r: "remdups (map snd k) = map snd k" using b(1) by (rule distinct_remdups_id)
  show ?thesis
    unfolding random_swap_key_def random_sample2_def draw_def Let_def reversed_order_def r
    using b(2) by simp
qed

lemma tape_shift_fixed: "(\<lambda>i. tape [24, 7] (Suc (Suc i))) = tape []"
  by (auto simp: tape_def fun_eq_iff)

lemma swap_fixed_remdups:
  "random_swap_key remdups (tape [24, 7]) seed_xy = Inr (swap_images 101 100 seed_xy, tape [])"
proof -
  have "map snd seed_xy ! 24 = 101" "map snd seed_xy ! 5 = 100"
    by (simp_all add: seed_xy_def)
  then show ?thesis
    unfolding random_swap_key_remdups[OF seed_xy_bijection] tape_shift_fixed
    by (simp add: tape_def)
qed

lemma swap_fixed_reversed:
  "random_swap_key reversed_order (tape [24, 7]) seed_xy
     = Inr (swap_images 114 106 seed_xy, tape [])"
proof -
  have "rev (map snd seed_xy) ! 24 = 114" "rev (map snd seed_xy) ! 5 = 106"
    by (simp_all add: seed_xy_def)
  then show ?thesis
    unfolding random_swap_key_reversed[OF seed_xy_bijection] tape_shift_fixed
    by (simp add: tape_def)
qed

lemma temperature_last: "temperature 1 1 = Inr Tmin"
  by (simp add: temperature_def py_div_def T0_def Tmin_def)

lemma run_listed_order:
  "decipher remdups fixed_seed g (str ''xy'') 1 1 (Some 0) True
     = Inr ([100, 97], swap_images 101 100 seed_xy, - 0.925)"
proof -
  have r: "[0..1 - 1] = [0::int]" "[1..1::int] = [1]"
    by (simp_all add: upto_rec1)
  show ?thesis
    unfolding decipher_def decipher_run_def str_xy letters_xy Let_def r
    by (simp add: seed_key_xy decode_seed_xy score_ea restart_step_def r fixed_seed_def
        anneal_step_def temperature_last swap_fixed_remdups decode_swap_de score_da
        accept_move_def Let_def)
qed

lemma run_reversed_order:
  "decipher reversed_order fixed_seed g (str ''xy'') 1 1 (Some 0) True
     = Inr ([101, 97], seed_xy, - 15.925)"
proof -
  have r: "[0..1 - 1] = [0::int]" "[1..1::int] = [1]"
    by (simp_all add: upto_rec1)
  show ?thesis
    unfolding decipher_def decipher_run_def str_xy letters_xy Let_def r
    by (simp add: seed_key_xy decode_seed_xy score_ea restart_step_def r fixed_seed_def
        anneal_step_def temperature_last swap_fixed_reversed decode_swap_rj
        accept_move_def Let_def)
qed

lemma reversed_order_ok: "set_order_ok reversed_order"
  by (simp add: set_order_ok_def reversed_order_def)

lemma score_letterfree: "only_letters p = [] \<Longrightarrow> score_text p = Inr (- 1000000000)"
  by (simp add: score_text_def)

lemma counted_origin:
  "x \<in> set (counted h) \<Longrightarrow>
   \<exists>e \<in> set h. score_of e = x \<and> (origin_of e = Seed \<or> origin_of e = Accepted)"
  unfolding counted_def set_map set_filter by blast

lemma hist_inv_no_improvement:
  assumes "hist_inv s0 best h" "\<forall>e \<in> set h. origin_of e = Accepted \<longrightarrow> score_of e \<le> s0"
  shows "best \<le> s0"
proof -
  have seed: "\<forall>e \<in> set h. origin_of e = Seed \<longrightarrow> score_of e = s0"
    and ne: "s0 \<in> set (counted h)" and mx: "best = Max (set (counted h))"
    using assms(1) unfolding hist_inv_def by blast+
  have "x \<le> s0" if "x \<in> set (counted h)" for x
  proof -
    from counted_origin[OF that] obtain e where
      e: "e \<in> set h" "score_of e = x" "origin_of e = Seed \<or> origin_of e = Accepted" by blast
    show ?thesis using e seed assms(2) by auto
  qed
  then have "Max (set (counted h)) \<le> s0"
    using ne by (intro Max.boundedI) auto
  then show ?thesis using mx by simp
qed

lemma decipher_result:
  assumes "set_order_ok ord"
  shows "\<exists>k0 p0 s0 st.
     initial_key_from_freq (only_letters c) force_e = Inr k0 \<and>
     apply_mapping c k0 = Inr p0 \<and> score_text p0 = Inr s0 \<and>
     decipher_run ord mt_seed g c restarts iters seed force_e = Inr st \<and>
     decipher ord mt_seed g c restarts iters seed force_e
       = Inr (best_plain st, best_key st, best_score st) \<and>
     s0 \<le> best_score st \<and>
     ((\<forall>e \<in> set (history st). origin_of e = Accepted \<longrightarrow> score_of e \<le> s0)
        \<longrightarrow> (best_plain st, best_key st, best_score st) = (p0, k0, s0)) \<and>
     (only_letters c = [] \<longrightarrow> best_score st = - 1000000000)"
proof -
  from decipher_run_inv[OF assms, of c force_e mt_seed g restarts iters seed]
  obtain k0 p0 s0 st where r:
    "initial_key_from_freq (only_letters c) force_e = Inr k0"
    "apply_mapping c k0 = Inr p0" "score_text p0 = Inr s0"
    "decipher_run ord mt_seed g c restarts iters seed force_e = Inr st"
    "search_inv c p0 k0 s0 st" by blast
  have h: "hist_inv s0 (best_score st) (history st)"
    using r(5) unfolding search_inv_def by blast
  have b: "(best_plain st, best_key st, best_score st) = (p0, k0, s0) \<or> s0 < best_score st"
    using r(5) unfolding search_inv_def by blast
  have d: "apply_mapping c (best_key st) = Inr (best_plain st)"
      "score_text (best_plain st) = Inr (best_score st)"
    using r(5) unfolding search_inv_def by blast+
  have 1: "decipher ord mt_seed g c restarts iters seed force_e
       = Inr (best_plain st, best_key st, best_score st)"
    using r(4) by (simp add: decipher_def)
  have 2: "s0 \<le> best_score st" using h by (rule hist_inv_seed_le)
  have 3: "(\<forall>e \<in> set (history st). origin_of e = Accepted \<longrightarrow> score_of e \<le> s0)
        \<longrightarrow> (best_plain st, best_key st, best_score st) = (p0, k0, s0)"
  proof
    assume "\<forall>e \<in> set (history st). origin_of e = Accepted \<longrightarrow> score_of e \<le> s0"
    from hist_inv_no_improvement[OF h this] have "\<not> s0 < best_score st" by simp
    with b show "(best_plain st, best_key st, best_score st) = (p0, k0, s0)" by blast
  qed
  have 4: "only_letters c = [] \<longrightarrow> best_score st = - 1000000000"
  proof
    assume e: "only_letters c = []"
    have "best_plain st = c" using only_letters_letterfree[OF e, of "best_key st"] d(1) by simp
    then show "best_score st = - 1000000000" using score_letterfree[OF e] d(2) by simp
  qed
  show ?thesis
    apply (rule exI[of _ k0], rule exI[of _ p0], rule exI[of _ s0], rule exI[of _ st])
    using r(1,2,3,4) 1 2 3 4 by (intro conjI)
qed

lemma decipher_best_tracking:
  assumes "set_order_ok ord"
  shows "\<exists>st.
     decipher_run ord mt_seed g c restarts iters seed force_e = Inr st \<and>
     decipher ord mt_seed g c restarts iters seed force_e
       = Inr (best_plain st, best_key st, best_score st) \<and>
     apply_mapping c (best_key st) = Inr (best_plain st) \<and>
     score_text (best_plain st) = Inr (best_score st) \<and>
     sorted (map best_after (history st)) \<and>
     best_after (last (history st)) = best_score st \<and>
     best_score st = Max (set (counted (history st)))"
proof -
  from decipher_run_inv[OF assms, of c force_e mt_seed g restarts iters seed]
  obtain k0 p0 s0 st where r:
    "decipher_run ord mt_seed g c restarts iters seed force_e = Inr st"
    "search_inv c p0 k0 s0 st" by blast
  have h: "hist_inv s0 (best_score st) (history st)"
    using r(2) unfolding search_inv_def by blast
  have d: "apply_mapping c (best_key st) = Inr (best_plain st)"
      "score_text (best_plain st) = Inr (best_score st)"
    using r(2) unfolding search_inv_def by blast+
  have 1: "decipher ord mt_seed g c restarts iters seed force_e
       = Inr (best_plain st, best_key st, best_score st)"
    using r(1) by (simp add: decipher_def)
  have 2: "sorted (map best_after (history st))"
    "best_after (last (history st)) = best_score st"
    "best_score st = Max (set (counted (history st)))"
    using h unfolding hist_inv_def by blast+
  show ?thesis
    apply (rule exI[of _ st])
    using r(1) 1 d 2 by (intro conjI)
qed

lemma seeded_run_ignores_ambient_state:
  "decipher ord mt_seed g c restarts iters (Some s) force_e
     = decipher ord mt_seed g' c restarts iters (Some s) force_e"
  by (simp add: decipher_def decipher_run_def)


lemma mset_ins: "mset (ins k x xs) = mset (x # xs)"
proof -
  have "mset (take k xs) + mset (drop k xs) = mset (take k xs @ drop k xs)"
    by (simp only: mset_append)
  also have "\<dots> = mset xs" by (simp only: append_take_drop_id)
  finally show ?thesis by (simp add: ins_def)
qed

lemma set_ins: "set (ins k x xs) = insert x (set xs)"
  using mset_ins[of k x xs] by (metis list.simps(15) mset_eq_setD)

lemma distinct_ins: "distinct (ins k x xs) \<longleftrightarrow> x \<notin> set xs \<and> distinct xs"
  using mset_eq_imp_distinct_iff[OF mset_ins[of k x xs]] by simp

lemma length_ins: "length (ins k x xs) = Suc (length xs)"
  by (simp add: ins_def)

lemma nth_ins_at: "k \<le> length xs \<Longrightarrow> ins k x xs ! k = x"
  by (simp add: ins_def nth_append)

lemma nth_ins_before: "m < k \<Longrightarrow> k \<le> length xs \<Longrightarrow> ins k x xs ! m = xs ! m"
  by (simp add: ins_def nth_append)

lemma listing_with_facts:
  assumes "a \<in> set ALPH" "b \<in> set ALPH" "a \<noteq> b" "i < 27" "j < 27" "i \<noteq> j"
  shows "set_order_ok (listing_with a i b j)"
    and "set xs = set ALPH \<Longrightarrow> length (listing_with a i b j xs) = 27"
    and "set xs = set ALPH \<Longrightarrow> listing_with a i b j xs ! i = a"
    and "set xs = set ALPH \<Longrightarrow> listing_with a i b j xs ! j = b"
proof -
  define rest where "rest = filter (\<lambda>x. x \<noteq> a \<and> x \<noteq> b) ALPH"
  define L where "L = (if i < j then ins j b (ins i a rest) else ins i a (ins j b rest))"
  have eq: "listing_with a i b j xs = L" if "set xs = set ALPH" for xs
    using that by (simp add: listing_with_def L_def rest_def)
  have dr: "distinct rest" "a \<notin> set rest" "b \<notin> set rest"
    using distinct_ALPH by (simp_all add: rest_def)
  have sr: "insert a (insert b (set rest)) = set ALPH"
    using assms(1,2) by (auto simp: rest_def)
  have d2: "distinct (a # b # rest)" using dr assms(3) by simp
  have s2: "set (a # b # rest) = set ALPH" using sr by simp
  have "length (a # b # rest) = card (set (a # b # rest))"
    using distinct_card[OF d2] by simp
  also have "\<dots> = card (set ALPH)" by (simp only: s2)
  also have "\<dots> = length ALPH" by (rule distinct_card[OF distinct_ALPH])
  finally have lr: "length rest = 25" using length_ALPH by simp
  have dL: "distinct L"
  proof (cases "i < j")
    case True
    then show ?thesis using dr assms(3) by (simp add: L_def distinct_ins set_ins)
  next
    case False
    then show ?thesis using dr assms(3) by (simp add: L_def distinct_ins set_ins)
  qed
  have sL: "set L = set ALPH"
  proof (cases "i < j")
    case True
    then have "set L = insert b (insert a (set rest))" by (simp add: L_def set_ins)
    then show ?thesis using sr by (simp add: insert_commute)
  next
    case False
    then have "set L = insert a (insert b (set rest))" by (simp add: L_def set_ins)
    then show ?thesis using sr by simp
  qed
  have lL: "length L = 27" using lr by (simp add: L_def length_ins)
  have Li: "L ! i = a"
  proof (cases "i < j")
    case True
    then have "L ! i = ins i a rest ! i"
      using assms(5) lr by (simp add: L_def nth_ins_before length_ins)
    then show ?thesis using True assms(5) lr by (simp add: nth_ins_at)
  next
    case False
    then show ?thesis using assms(4) lr by (simp add: L_def nth_ins_at length_ins)
  qed
  have Lj: "L ! j = b"
  proof (cases "i < j")
    case True
    then show ?thesis using assms(5) lr by (simp add: L_def nth_ins_at length_ins)
  next
    case False
    then have ji: "j < i" using assms(6) by simp
    then have "L ! j = ins j b rest ! j"
      using False assms(4) lr by (simp add: L_def nth_ins_before length_ins)
    then show ?thesis using ji assms(4) lr by (simp add: nth_ins_at)
  qed
  show "set_order_ok (listing_with a i b j)"
    unfolding set_order_ok_def
  proof
    fix xs
    show "distinct (listing_with a i b j xs) \<and> set (listing_with a i b j xs) = set xs"
    proof (cases "set xs = set ALPH")
      case True
      then show ?thesis using eq[OF True] dL sL by simp
    next
      case False
      then show ?thesis by (simp add: listing_with_def)
    qed
  qed
  show "set xs = set ALPH \<Longrightarrow> length (listing_with a i b j xs) = 27"
    using eq lL by simp
  show "set xs = set ALPH \<Longrightarrow> listing_with a i b j xs ! i = a"
    using eq Li by simp
  show "set xs = set ALPH \<Longrightarrow> listing_with a i b j xs ! j = b"
    using eq Lj by simp
qed

lemma random_swap_key_at:
  assumes "length (ord (map snd k)) = 27"
  shows "random_swap_key ord g k
    = Inr (swap_images (ord (map snd k) ! (g 0 mod 27))
             (ord (map snd k) ! ((g 0 mod 27 + 1 + g 1 mod 26) mod 27)) k,
           \<lambda>i. g (Suc (Suc i)))"
  unfolding random_swap_key_def random_sample2_def draw_def Let_def
  using assms by simp

lemma one_step_run:
  assumes "mt_seed s = g0" "random_swap_key ord g0 seed_xy = Inr (k1, g1)"
    "apply_mapping [120, 121] k1 = Inr p1" "score_text p1 = Inr s1" "- 15.925 \<le> s1"
  shows "decipher ord mt_seed g (str ''xy'') 1 1 (Some s) True
    = Inr (if - 15.925 < s1 then (p1, k1, s1) else ([101, 97], seed_xy, - 15.925))"
proof -
  have r: "[0..1 - 1] = [0::int]" "[1..1::int] = [1]"
    by (simp_all add: upto_rec1)
  show ?thesis
    unfolding decipher_def decipher_run_def str_xy letters_xy Let_def r
    using assms
    by (simp add: seed_key_xy decode_seed_xy score_ea restart_step_def r
        anneal_step_def temperature_last accept_move_def Let_def)
qed

lemma seed_xy_images: "set (map snd seed_xy) = set ALPH"
  using seed_xy_bijection unfolding is_bijection_def by (metis set_mset_mset)

lemma drawn_positions:
  fixes g0 :: rng
  defines "i \<equiv> g0 0 mod 27" and "j \<equiv> (g0 0 mod 27 + 1 + g0 1 mod 26) mod 27"
  shows "i < 27" "j < 27" "i \<noteq> j"
proof -
  show i: "i < 27" by (simp add: i_def)
  show "j < 27" by (simp add: j_def)
  have d: "g0 1 mod 26 < 27 - 1" by simp
  show "i \<noteq> j"
    using shifted_index_neq[OF i d] by (simp add: i_def j_def)
qed

lemma order_dependence:
  "\<exists>ord1 ord2. set_order_ok ord1 \<and> set_order_ok ord2 \<and>
     decipher ord1 mt_seed g (str ''xy'') 1 1 (Some s) True
       = Inr ([100, 97], swap_images 101 100 seed_xy, - 0.925) \<and>
     decipher ord2 mt_seed g (str ''xy'') 1 1 (Some s) True
       = Inr ([101, 97], seed_xy, - 15.925)"
proof -
  define g0 where "g0 = mt_seed s"
  define i where "i = g0 0 mod 27"
  define j where "j = (g0 0 mod 27 + 1 + g0 1 mod 26) mod 27"
  have p: "i < 27" "j < 27" "i \<noteq> j"
    unfolding i_def j_def by (rule drawn_positions)+
  have m: "(101::nat) \<in> set ALPH" "(100::nat) \<in> set ALPH" "(101::nat) \<noteq> 100"
    "(114::nat) \<in> set ALPH" "(106::nat) \<in> set ALPH" "(114::nat) \<noteq> 106"
    by (simp_all add: ALPH_codes)
  define ord1 where "ord1 = listing_with 101 i 100 j"
  define ord2 where "ord2 = listing_with 114 i 106 j"
  note f1 = listing_with_facts[OF m(1,2,3) p]
  note f2 = listing_with_facts[OF m(4,5,6) p]
  have s1: "random_swap_key ord1 g0 seed_xy
      = Inr (swap_images 101 100 seed_xy, \<lambda>i. g0 (Suc (Suc i)))"
    using random_swap_key_at[of ord1 seed_xy g0] f1(2,3,4)[OF seed_xy_images]
    by (simp add: ord1_def i_def j_def)
  have s2: "random_swap_key ord2 g0 seed_xy
      = Inr (swap_images 114 106 seed_xy, \<lambda>i. g0 (Suc (Suc i)))"
    using random_swap_key_at[of ord2 seed_xy g0] f2(2,3,4)[OF seed_xy_images]
    by (simp add: ord2_def i_def j_def)
  have r1: "decipher ord1 mt_seed g (str ''xy'') 1 1 (Some s) True
       = Inr ([100, 97], swap_images 101 100 seed_xy, - 0.925)"
    using one_step_run[where mt_seed = mt_seed and s = s and g = g, OF g0_def[symmetric] s1
        decode_swap_de score_da] by simp
  have r2: "decipher ord2 mt_seed g (str ''xy'') 1 1 (Some s) True
       = Inr ([101, 97], seed_xy, - 15.925)"
    using one_step_run[where mt_seed = mt_seed and s = s and g = g, OF g0_def[symmetric] s2
        decode_swap_rj score_ea] by simp
  show ?thesis
    apply (rule exI[of _ ord1], rule exI[of _ ord2])
    using f1(1) f2(1) r1 r2 unfolding ord1_def ord2_def by (intro conjI)
qed

section \<open>Claims\<close>

text \<open>
  C1.  Every key the program produces is a bijection on the 27-letter alphabet: for every
  input mapping, \<open>permute_fix\<close> (and so \<open>initial_key_from_freq\<close>) returns a key whose
  domain is exactly the alphabet and whose images are every letter exactly once; and from
  a key that is such a bijection, \<open>random_swap_key\<close> and \<open>shake_key\<close> return such a
  bijection again, whatever the generator draws and in whatever order the set of images
  is listed.
\<close>

theorem keys_are_bijections:
  "(\<exists>k. permute_fix mapping = Inr k \<and> is_bijection k) \<and>
   (\<exists>k. initial_key_from_freq s force_e = Inr k \<and> is_bijection k) \<and>
   (set_order_ok ord \<and> is_bijection key \<longrightarrow>
      (\<exists>k' g'. random_swap_key ord g key = Inr (k', g') \<and> is_bijection k') \<and>
      (\<exists>k' g'. shake_key ord g key shakes = Inr (k', g') \<and> is_bijection k'))"
proof -
  have "\<exists>k. permute_fix mapping = Inr k \<and> is_bijection k"
    using permute_fix_bijection[of mapping] by blast
  moreover have "\<exists>k. initial_key_from_freq s force_e = Inr k \<and> is_bijection k"
    using initial_key_bijection[of s force_e] by blast
  moreover have "\<exists>k' g'. random_swap_key ord g key = Inr (k', g') \<and> is_bijection k'"
    if "set_order_ok ord" "is_bijection key"
    using random_swap_key_bijection[OF that(2) that(1), of g] by blast
  moreover have "\<exists>k' g'. shake_key ord g key shakes = Inr (k', g') \<and> is_bijection k'"
    if "set_order_ok ord" "is_bijection key"
    using shake_key_bijection[OF that(2) that(1), of g shakes] by blast
  ultimately show ?thesis by blast
qed

theorem keys_are_bijections_witness:
  "set_order_ok remdups \<and> is_bijection atbash_key \<and>
   (\<exists>k. permute_fix [(97, 101), (98, 101), (99, 33)] = Inr k \<and> is_bijection k) \<and>
   (\<exists>k. initial_key_from_freq (str ''xyx'') True = Inr k \<and> is_bijection k) \<and>
   (\<exists>k' g'. random_swap_key remdups (tape [3, 4]) atbash_key = Inr (k', g') \<and> is_bijection k') \<and>
   (\<exists>k' g'. shake_key remdups (tape [3, 4]) atbash_key 30 = Inr (k', g') \<and> is_bijection k')"
  using keys_are_bijections[of "[(97, 101), (98, 101), (99, 33)]" "str ''xyx''" True remdups
      atbash_key "tape [3, 4]" 30]
    remdups_order_ok atbash_bijection
  by simp

text \<open>
  C2.  For every t and every key k that is a bijection on the alphabet,
  \<open>apply_mapping t k\<close> returns a string of the length of t in which every position
  of a character outside the alphabet holds the same character and every position of a
  letter holds the image of that letter under k.
\<close>

theorem apply_mapping_preserves_shape:
  assumes "is_bijection k"
  shows "\<exists>out. apply_mapping t k = Inr out \<and> length out = length t \<and>
           (\<forall>i<length t.
              (t ! i \<notin> set ALPH \<longrightarrow> out ! i = t ! i) \<and>
              (t ! i \<in> set ALPH \<longrightarrow> map_of k (t ! i) = Some (out ! i)))"
  using apply_mapping_positions[OF assms] .

theorem apply_mapping_preserves_shape_witness:
  "is_bijection atbash_key \<and>
   (\<exists>out. apply_mapping (str ''ab, z!'') atbash_key = Inr out \<and>
      length out = length (str ''ab, z!'') \<and>
      (\<forall>i<length (str ''ab, z!'').
         (str ''ab, z!'' ! i \<notin> set ALPH \<longrightarrow> out ! i = str ''ab, z!'' ! i) \<and>
         (str ''ab, z!'' ! i \<in> set ALPH
            \<longrightarrow> map_of atbash_key (str ''ab, z!'' ! i) = Some (out ! i))))"
  using apply_mapping_preserves_shape[OF atbash_bijection, of "str ''ab, z!''"] atbash_bijection
  by simp

text \<open>
  C3.  For every plaintext whose letter-only projection has at least one letter,
  \<open>score_text\<close> returns exactly the sum of the bigram weights of the overlapping letter
  pairs (\<open>-0.8\<close> for a pair absent from the table), plus the sum of the trigram weights of
  the overlapping letter triples (\<open>-0.5\<close> for an absent triple), plus 6.0 for each
  occurrence of a lexicon word among the whitespace-delimited tokens, minus
  \<open>50.0 * (ratio - 0.45)\<^sup>2\<close> for the vowel ratio of the letters.
\<close>

theorem score_text_is_formula:
  assumes "1 \<le> length (only_letters plain)"
  shows "score_text plain = Inr (score_formula plain)"
  using score_text_eq_formula[OF assms] .

theorem score_text_is_formula_witness:
  "1 \<le> length (only_letters (str ''de la'')) \<and>
   score_text (str ''de la'') = Inr (score_formula (str ''de la''))"
proof -
  have h: "1 \<le> length (only_letters (str ''de la''))"
    by (simp add: only_letters_def str_def ALPH_codes)
  show ?thesis using h score_text_is_formula[OF h] by simp
qed

text \<open>
  C4.  The image swap is an involution: for every key k that is a bijection on the
  alphabet and every two distinct letters a and b, swapping the images a and b twice
  gives k back.
\<close>

theorem swap_images_involution:
  assumes "is_bijection k" "a \<in> set ALPH" "b \<in> set ALPH" "a \<noteq> b"
  shows "swap_images a b (swap_images a b k) = k"
  using swap_twice .

theorem swap_images_involution_witness:
  "is_bijection atbash_key \<and> 97 \<in> set ALPH \<and> 98 \<in> set ALPH \<and> (97::nat) \<noteq> 98 \<and>
   swap_images 97 98 (swap_images 97 98 atbash_key) = atbash_key"
proof -
  have h: "97 \<in> set ALPH" "98 \<in> set ALPH" "(97::nat) \<noteq> 98"
    by (simp_all add: ALPH_codes)
  show ?thesis
    using atbash_bijection h swap_images_involution[OF atbash_bijection h] by simp
qed

text \<open>
  C10.  The force-e option has no effect on the seed key: for every string s,
  \<open>initial_key_from_freq s True\<close> and \<open>initial_key_from_freq s False\<close> return the same
  key, because the reference frequency order already begins with the letter e.
\<close>

theorem force_e_has_no_effect:
  "\<exists>k. initial_key_from_freq s True = Inr k \<and> initial_key_from_freq s False = Inr k"
  using initial_key_bijection[of s True] force_e_no_effect[of s] by auto

text \<open>
  C5 (as amended).  \<open>score_text\<close> of a text with no letter is the sentinel \<open>-1e9\<close>, and the
  sentinel is strictly below the score of every text with at least one and at most
  769230758 letters, so below the score of every such text that holds a recognized
  bigram or a lexicon word.
\<close>

theorem sentinel_below_bounded_scores:
  "(only_letters t0 = [] \<longrightarrow> score_text t0 = Inr (- 1000000000)) \<and>
   (1 \<le> length (only_letters t) \<and> length (only_letters t) \<le> 769230758 \<longrightarrow>
      (\<exists>s. score_text t = Inr s \<and> - 1000000000 < s))"
proof (intro conjI impI)
  assume "only_letters t0 = []"
  then show "score_text t0 = Inr (- 1000000000)" by (rule score_letterfree)
next
  assume a: "1 \<le> length (only_letters t) \<and> length (only_letters t) \<le> 769230758"
  then have "score_text t = Inr (score_formula t)" "- 1000000000 < score_formula t"
    using score_text_eq_formula[of t] score_above_sentinel[of t] by simp_all
  then show "\<exists>s. score_text t = Inr s \<and> - 1000000000 < s" by blast
qed

theorem sentinel_below_bounded_scores_witness:
  "only_letters (str ''?! 12'') = [] \<and> score_text (str ''?! 12'') = Inr (- 1000000000) \<and>
   1 \<le> length (only_letters (str ''de la'')) \<and>
   length (only_letters (str ''de la'')) \<le> 769230758 \<and>
   (\<exists>s. score_text (str ''de la'') = Inr s \<and> - 1000000000 < s)"
proof -
  have h: "only_letters (str ''?! 12'') = []" "length (only_letters (str ''de la'')) = 4"
    by (simp_all add: only_letters_def str_def ALPH_codes)
  show ?thesis
    using h sentinel_below_bounded_scores[of "str ''?! 12''" "str ''de la''"] by simp
qed

text \<open>
  C5 as stated fails: the text \<open>de\<close>, a space and 1000000000 times the letter z holds
  the recognized bigram and lexicon word \<open>de\<close>, and its score is below the sentinel.
\<close>

theorem sentinel_above_long_text_score:
  "dict_get BIGRAM_SCORES (take 2 (only_letters (str ''de '' @ replicate 1000000000 122)))
     (- 0.8) = 4.5 \<and>
   hd (py_split (str ''de '' @ replicate 1000000000 122)) \<in> set COMMON_WORDS \<and>
   \<not> isl (score_text (str ''de '' @ replicate 1000000000 122)) \<and>
   projr (score_text (str ''de '' @ replicate 1000000000 122)) < - 1000000000"
proof -
  have n: "(8::nat) \<le> 1000000000" by simp
  note f = long_text_facts[OF n]
  have 1: "dict_get BIGRAM_SCORES
      (take 2 (only_letters (str ''de '' @ replicate 1000000000 122))) (- 0.8) = 4.5"
    unfolding f using bigram_de by simp
  have 2: "hd (py_split (str ''de '' @ replicate 1000000000 122)) \<in> set COMMON_WORDS"
    unfolding f using de_in_lexicon by simp
  from long_text_below_sentinel obtain s where
    s: "score_text (str ''de '' @ replicate 1000000000 122) = Inr s" "s < - 1000000000"
    by blast
  show ?thesis using 1 2 s by simp
qed

text \<open>
  C6.  The triple returned by \<open>decipher\<close> should be the best candidate that was decoded
  and scored during the run, the starts of the shaken restarts included.  The code
  compares a candidate with the best only when it accepts a neighbour, so the start of
  a shaken restart is scored and never compared: with two restarts and no iteration on
  the ciphertext \<open>xy\<close>, the second restart starts from a shaken key whose decode \<open>de\<close>
  is scored 10.375, and \<open>decipher\<close> returns the seed's decode \<open>ea\<close> with the score
  -15.925, below the maximum of the scores of the run.
\<close>

theorem best_misses_shaken_start:
  "decipher remdups zero_seed (tape [24, 7, 25, 6]) (str ''xy'') 2 0 None True
     = Inr ([101, 97], seed_xy, - 15.925) \<and>
   scored (history (projr
     (decipher_run remdups zero_seed (tape [24, 7, 25, 6]) (str ''xy'') 2 0 None True)))
     = [- 15.925, - 15.925, 10.375] \<and>
   - 15.925 < Max (set (scored (history (projr
     (decipher_run remdups zero_seed (tape [24, 7, 25, 6]) (str ''xy'') 2 0 None True)))))"
  unfolding decipher_def run_two_restarts
  by (simp add: scored_def score_of_def)

text \<open>
  C7.  \<open>decipher\<close> never raises: for every ciphertext, every budget of restarts and
  iterations, every generator state and every listing order of the image set it returns
  a triple whose score is at least the score of the seed key's decode; when no accepted
  move scores above the seed, the triple is the seed's own decode; and on input without
  letters the returned score is the sentinel.  No division by zero occurs: a division
  by zero is an error of the model.
\<close>

theorem decipher_never_raises:
  assumes "set_order_ok ord"
  shows "\<exists>k0 p0 s0 st.
     initial_key_from_freq (only_letters c) force_e = Inr k0 \<and>
     apply_mapping c k0 = Inr p0 \<and> score_text p0 = Inr s0 \<and>
     decipher_run ord mt_seed g c restarts iters seed force_e = Inr st \<and>
     decipher ord mt_seed g c restarts iters seed force_e
       = Inr (best_plain st, best_key st, best_score st) \<and>
     s0 \<le> best_score st \<and>
     ((\<forall>e \<in> set (history st). origin_of e = Accepted \<longrightarrow> score_of e \<le> s0)
        \<longrightarrow> (best_plain st, best_key st, best_score st) = (p0, k0, s0)) \<and>
     (only_letters c = [] \<longrightarrow> best_score st = - 1000000000)"
  using decipher_result[OF assms] .

theorem decipher_never_raises_witness:
  "set_order_ok remdups \<and> only_letters (str ''?! 12'') = [] \<and>
   (\<exists>p k. decipher remdups zero_seed (tape [3, 1, 4]) (str ''?! 12'') 3 5 None True
            = Inr (p, k, - 1000000000))"
proof -
  have e: "only_letters (str ''?! 12'') = []"
    by (simp add: only_letters_def str_def ALPH_codes)
  show ?thesis
    using decipher_never_raises[OF remdups_order_ok, of "str ''?! 12''" True zero_seed
      "tape [3, 1, 4]" 3 5 None]
    apply (elim exE conjE)
    using remdups_order_ok e by simp
qed




text \<open>
  C9.  With the same seed, the same ciphertext \<open>xy\<close> and the same parameters (one restart,
  one iteration), whatever state \<open>random.seed\<close> gives the generator, there are two listing
  orders of the set of images under which \<open>decipher\<close> returns different plaintexts, keys and
  scores: \<open>random.sample\<close> draws positions, and \<open>list(set(m.values()))\<close> puts different
  letters at these positions when the hash seed of the interpreter differs.
\<close>

theorem decipher_depends_on_set_order:
  "\<exists>ord1 ord2. set_order_ok ord1 \<and> set_order_ok ord2 \<and>
     decipher ord1 mt_seed g (str ''xy'') 1 1 (Some s) True
       = Inr ([100, 97], swap_images 101 100 seed_xy, - 0.925) \<and>
     decipher ord2 mt_seed g (str ''xy'') 1 1 (Some s) True
       = Inr ([101, 97], seed_xy, - 15.925)"
  using order_dependence .

end
